theory Spec2Isabelle
  imports Complex_Main
begin

section \<open>Jack's car rental: the dynamic-programming solver of \<open>chapter-4/car_rental.py\<close>\<close>

text \<open>
  Modelling conventions.
  \<^item> Python integers are \<open>int\<close>; \<open>range(n)\<close> is the list \<open>[0..n - 1]\<close>.
  \<^item> Python floats are idealised as \<open>real\<close>: rounding, overflow and NaN are not modelled.
    \<open>math.exp\<close> is \<open>exp\<close>, \<open>math.pow\<close> is exponentiation, \<open>0.9\<close> is \<open>9 / 10\<close>.
  \<^item> A dictionary is a map; a lookup of a missing key raises \<open>KeyError\<close>.
  \<^item> A two-dimensional numpy array is a list of rows; an index outside the array raises
    \<open>IndexError\<close>. The entries of the \<open>np.int32\<close> policy array are \<open>int\<close>: the values
    stored lie between \<open>-MAX_CARS\<close> and \<open>MAX_CARS\<close>.
  \<^item> An exception is the left summand of the result; a loop that does not end is \<open>None\<close>.
  \<^item> A method that changes the object takes it and returns the new one. Printing and
    rendering do not change the object and are left out.
\<close>

subsection \<open>Module constants\<close>

definition CAR_RENTAL_COST :: int where "CAR_RENTAL_COST = 10"
definition CAR_MOVE_COST :: int where "CAR_MOVE_COST = 2"
definition MAX_CARS :: int where "MAX_CARS = 20"
definition MAX_MOVE :: int where "MAX_MOVE = 5"
definition ACTIONS :: "int list" where "ACTIONS = [-5, -4, -3, -2, -1, 0, 1, 2, 3, 4, 5]"
definition REQUEST_1_LAMBDA :: int where "REQUEST_1_LAMBDA = 3"
definition DROPOFF_1_LAMBDA :: int where "DROPOFF_1_LAMBDA = 3"
definition REQUEST_2_LAMBDA :: int where "REQUEST_2_LAMBDA = 4"
definition DROPOFF_B_LAMBDA :: int where "DROPOFF_B_LAMBDA = 2"
definition DISCOUNT :: real where "DISCOUNT = 9 / 10"

lemmas consts_defs = CAR_RENTAL_COST_def CAR_MOVE_COST_def MAX_CARS_def MAX_MOVE_def
  ACTIONS_def REQUEST_1_LAMBDA_def DROPOFF_1_LAMBDA_def REQUEST_2_LAMBDA_def
  DROPOFF_B_LAMBDA_def DISCOUNT_def

subsection \<open>Exceptions, states and actions\<close>

datatype py_error = KeyError | IndexError | ValueError

type_synonym state = "int \<times> int"

text \<open>\<open>get_valid_action\<close>: first clip to the cars available, then to \<open>MAX_MOVE\<close>.\<close>

definition get_valid_action :: "state \<Rightarrow> int \<Rightarrow> int" where
  "get_valid_action st action =
     (case st of (cars_at_1, cars_at_2) \<Rightarrow>
        let action1 = max (- cars_at_2) (min action cars_at_1)
        in max (- MAX_MOVE) (min MAX_MOVE action1))"

text \<open>\<open>get_available_actions\<close>: \<open>list(range(max(-MAX_CARS, -state[1]), min(MAX_CARS, state[0]) + 1))\<close>.\<close>

definition get_available_actions :: "state \<Rightarrow> int list" where
  "get_available_actions st = [max (- MAX_CARS) (- snd st) .. min MAX_CARS (fst st)]"

subsection \<open>Dictionaries, arrays and loops\<close>

text \<open>\<open>d[k]\<close> on a dictionary: a missing key raises \<open>KeyError\<close>.\<close>

definition dict_get :: "('k \<rightharpoonup> 'v) \<Rightarrow> 'k \<Rightarrow> py_error + 'v" where
  "dict_get d k = (case d k of None \<Rightarrow> Inl KeyError | Some v \<Rightarrow> Inr v)"

text \<open>\<open>if k not in d: d[k] = 0.\<close> followed by \<open>d[k] += v\<close>.\<close>

definition dict_add :: "('k \<rightharpoonup> real) \<Rightarrow> 'k \<Rightarrow> real \<Rightarrow> ('k \<rightharpoonup> real)" where
  "dict_add d k v = d(k \<mapsto> (case d k of None \<Rightarrow> 0 | Some x \<Rightarrow> x) + v)"

text \<open>\<open>range(n)\<close>.\<close>

definition py_range :: "int \<Rightarrow> int list" where
  "py_range n = [0 .. n - 1]"

text \<open>
  A \<open>for\<close> loop whose body may raise: the loop state is threaded through the body and the
  first exception leaves the loop.
\<close>

fun for_each :: "'a list \<Rightarrow> ('a \<Rightarrow> 's \<Rightarrow> py_error + 's) \<Rightarrow> 's \<Rightarrow> py_error + 's" where
  "for_each [] body s = Inr s"
| "for_each (x # xs) body s =
     (case body x s of Inl err \<Rightarrow> Inl err | Inr s' \<Rightarrow> for_each xs body s')"

type_synonym 'a ndarray = "'a list list"

text \<open>An index into an axis of length \<open>len\<close>; a negative index counts from the end.\<close>

definition nd_index :: "nat \<Rightarrow> int \<Rightarrow> py_error + nat" where
  "nd_index len i =
     (if - int len \<le> i \<and> i < int len
      then Inr (nat (if i < 0 then i + int len else i))
      else Inl IndexError)"

text \<open>\<open>arr[i, j]\<close>.\<close>

definition nd_get :: "'a ndarray \<Rightarrow> int \<Rightarrow> int \<Rightarrow> py_error + 'a" where
  "nd_get arr i j =
     (case nd_index (length arr) i of Inl err \<Rightarrow> Inl err
      | Inr r \<Rightarrow>
         (case nd_index (length (arr ! r)) j of Inl err \<Rightarrow> Inl err
          | Inr c \<Rightarrow> Inr (arr ! r ! c)))"

text \<open>\<open>arr[i, j] = v\<close>.\<close>

definition nd_set :: "'a ndarray \<Rightarrow> int \<Rightarrow> int \<Rightarrow> 'a \<Rightarrow> py_error + 'a ndarray" where
  "nd_set arr i j v =
     (case nd_index (length arr) i of Inl err \<Rightarrow> Inl err
      | Inr r \<Rightarrow>
         (case nd_index (length (arr ! r)) j of Inl err \<Rightarrow> Inl err
          | Inr c \<Rightarrow> Inr (arr[r := (arr ! r)[c := v]])))"

text \<open>\<open>np.zeros((rows, cols))\<close>.\<close>

definition nd_zeros :: "int \<Rightarrow> int \<Rightarrow> ('a::zero) ndarray" where
  "nd_zeros rows cols = replicate (nat rows) (replicate (nat cols) 0)"

text \<open>
  \<open>np.empty_like(arr)\<close>: a fresh array of the shape of \<open>arr\<close>. Its contents are not
  initialised in the source; here they are zero. Both callers overwrite every cell before
  the array is read (lemmas \<open>evaluation_sweep_result\<close> and \<open>improvement_sweep_result\<close>
  hold for every initial content).
\<close>

definition nd_empty_like :: "'b ndarray \<Rightarrow> ('a::zero) ndarray" where
  "nd_empty_like arr = map (map (\<lambda>_. 0)) arr"

text \<open>
  \<open>np.max(np.abs(a - b))\<close> for two arrays of one shape; \<open>np.max\<close> of an empty array
  raises \<open>ValueError\<close>, and so does the subtraction of arrays whose shapes differ.
\<close>

definition nd_max_abs_diff :: "real ndarray \<Rightarrow> real ndarray \<Rightarrow> py_error + real" where
  "nd_max_abs_diff a b =
     (let ds = concat (map2 (map2 (\<lambda>x y. \<bar>x - y\<bar>)) a b)
      in if map length a \<noteq> map length b \<or> ds = [] then Inl ValueError
         else Inr (Max (set ds)))"

text \<open>\<open>(a == b).all()\<close> for two arrays of one shape.\<close>

definition nd_all_equal :: "'a ndarray \<Rightarrow> 'a ndarray \<Rightarrow> bool" where
  "nd_all_equal a b = list_all2 (list_all2 (=)) a b"

subsection \<open>The solver object\<close>

record env =
  poisson_prob :: "(int \<times> int) \<rightharpoonup> real"
  state_values :: "real ndarray"
  policy :: "int ndarray"
  probs_1 :: "(int \<times> int) \<rightharpoonup> real"
  rewards_1 :: "int \<rightharpoonup> real"
  probs_2 :: "(int \<times> int) \<rightharpoonup> real"
  rewards_2 :: "int \<rightharpoonup> real"

subsection \<open>The Poisson cache and the per-location models\<close>

text \<open>
  \<open>poisson_probability\<close> reads and writes the attribute \<open>_poisson_prob\<close> only, so the
  dictionary is the state that is passed. \<open>math.factorial\<close> raises \<open>ValueError\<close> for a
  negative argument.
\<close>

definition poisson_probability ::
  "int \<Rightarrow> int \<Rightarrow> ((int \<times> int) \<rightharpoonup> real) \<Rightarrow> py_error + (real \<times> ((int \<times> int) \<rightharpoonup> real))" where
  "poisson_probability n lam cache =
     (case cache (n, lam) of
        Some v \<Rightarrow> Inr (v, cache)
      | None \<Rightarrow>
          if n < 0 then Inl ValueError
          else let v = exp (- real_of_int lam) * (real_of_int lam ^ nat n / fact (nat n))
               in Inr (v, cache((n, lam) \<mapsto> v)))"

text \<open>The innermost loop over \<open>n\<close> that accumulates the expected reward.\<close>

definition reward_loop :: "int \<Rightarrow> real \<Rightarrow> (int \<rightharpoonup> real) \<Rightarrow> (int \<rightharpoonup> real)" where
  "reward_loop requests request_prob R =
     fold (\<lambda>n R. dict_add R n
             (real_of_int CAR_RENTAL_COST * request_prob * real_of_int (min requests n)))
       (py_range (MAX_CARS + Max (set ACTIONS) + 1)) R"

text \<open>The innermost loop over \<open>n\<close> that accumulates the transition probabilities.\<close>

definition prob_loop ::
  "int \<Rightarrow> real \<Rightarrow> int \<Rightarrow> real \<Rightarrow> ((int \<times> int) \<rightharpoonup> real) \<Rightarrow> ((int \<times> int) \<rightharpoonup> real)" where
  "prob_loop requests request_prob dropoffs dropoffs_prob P =
     fold (\<lambda>n P.
             let satisfied_requests = min requests n;
                 new_n = max 0 (min MAX_CARS (n + dropoffs - satisfied_requests))
             in dict_add P (n, new_n) (request_prob * dropoffs_prob))
       (py_range (MAX_CARS + Max (set ACTIONS) + 1)) P"

text \<open>The loop over \<open>dropoffs\<close>; its state is \<open>P\<close> and the Poisson cache.\<close>

definition dropoffs_loop ::
  "int \<Rightarrow> int \<Rightarrow> real \<Rightarrow> ((int \<times> int) \<rightharpoonup> real) \<times> ((int \<times> int) \<rightharpoonup> real)
     \<Rightarrow> py_error + (((int \<times> int) \<rightharpoonup> real) \<times> ((int \<times> int) \<rightharpoonup> real))" where
  "dropoffs_loop lambda_dropoffs requests request_prob =
     for_each (py_range (MAX_CARS + Max (set ACTIONS) + 1))
       (\<lambda>dropoffs (P, cache).
           case poisson_probability dropoffs lambda_dropoffs cache of
             Inl err \<Rightarrow> Inl err
           | Inr (dropoffs_prob, cache') \<Rightarrow>
               Inr (prob_loop requests request_prob dropoffs dropoffs_prob P, cache'))"

text \<open>\<open>precompute_model\<close>: the loop over \<open>requests\<close>; its state is \<open>P\<close>, \<open>R\<close> and the cache.\<close>

definition precompute_model ::
  "int \<Rightarrow> int \<Rightarrow> ((int \<times> int) \<rightharpoonup> real)
     \<Rightarrow> py_error + ((((int \<times> int) \<rightharpoonup> real) \<times> (int \<rightharpoonup> real)) \<times> ((int \<times> int) \<rightharpoonup> real))" where
  "precompute_model lambda_requests lambda_dropoffs cache0 =
     (case for_each (py_range (MAX_CARS + Max (set ACTIONS) + 1))
             (\<lambda>requests (P, R, cache).
                 case poisson_probability requests lambda_requests cache of
                   Inl err \<Rightarrow> Inl err
                 | Inr (request_prob, cache1) \<Rightarrow>
                     let R' = reward_loop requests request_prob R
                     in (case dropoffs_loop lambda_dropoffs requests request_prob (P, cache1) of
                           Inl err \<Rightarrow> Inl err
                         | Inr (P', cache2) \<Rightarrow> Inr (P', R', cache2)))
             (Map.empty, Map.empty, cache0) of
        Inl err \<Rightarrow> Inl err
      | Inr (P, R, cache) \<Rightarrow> Inr ((P, R), cache))"

text \<open>\<open>reset\<close> replaces every attribute, so it does not depend on the previous object.\<close>

definition reset :: "py_error + env" where
  "reset =
     (case precompute_model REQUEST_1_LAMBDA DROPOFF_1_LAMBDA Map.empty of
        Inl err \<Rightarrow> Inl err
      | Inr ((P1, R1), cache1) \<Rightarrow>
          (case precompute_model REQUEST_2_LAMBDA DROPOFF_B_LAMBDA cache1 of
             Inl err \<Rightarrow> Inl err
           | Inr ((P2, R2), cache2) \<Rightarrow>
               Inr \<lparr> poisson_prob = cache2,
                     state_values = nd_zeros (MAX_CARS + 1) (MAX_CARS + 1),
                     policy = nd_zeros (MAX_CARS + 1) (MAX_CARS + 1),
                     probs_1 = P1, rewards_1 = R1,
                     probs_2 = P2, rewards_2 = R2 \<rparr>))"

subsection \<open>Environment dynamics\<close>

definition get_transition_probability :: "env \<Rightarrow> state \<Rightarrow> state \<Rightarrow> py_error + real" where
  "get_transition_probability e st new_state =
     (case dict_get (probs_1 e) (fst st, fst new_state) of
        Inl err \<Rightarrow> Inl err
      | Inr p1 \<Rightarrow>
          (case dict_get (probs_2 e) (snd st, snd new_state) of
             Inl err \<Rightarrow> Inl err
           | Inr p2 \<Rightarrow> Inr (p1 * p2)))"

definition get_reward :: "env \<Rightarrow> state \<Rightarrow> py_error + real" where
  "get_reward e st =
     (case dict_get (rewards_1 e) (fst st) of
        Inl err \<Rightarrow> Inl err
      | Inr r1 \<Rightarrow>
          (case dict_get (rewards_2 e) (snd st) of
             Inl err \<Rightarrow> Inl err
           | Inr r2 \<Rightarrow> Inr (r1 + r2)))"

definition step :: "env \<Rightarrow> state \<Rightarrow> int \<Rightarrow> py_error + (state \<times> real)" where
  "step e st action =
     (let morning_n1 = fst st - action;
          morning_n2 = snd st + action;
          new_state = (morning_n1, morning_n2)
      in case get_reward e new_state of
           Inl err \<Rightarrow> Inl err
         | Inr reward \<Rightarrow> Inr (new_state, reward))"

subsection \<open>The Bellman expectation backup\<close>

definition bellman_expectation :: "env \<Rightarrow> state \<Rightarrow> int \<Rightarrow> py_error + real" where
  "bellman_expectation e st action0 =
     (let action = get_valid_action st action0
      in case step e st action of
           Inl err \<Rightarrow> Inl err
         | Inr ((morning_n1, morning_n2), r) \<Rightarrow>
             for_each (py_range (MAX_CARS + 1))
               (\<lambda>new_n1. for_each (py_range (MAX_CARS + 1))
                  (\<lambda>new_n2 state_value.
                      case get_transition_probability e (morning_n1, morning_n2) (new_n1, new_n2) of
                        Inl err \<Rightarrow> Inl err
                      | Inr p \<Rightarrow>
                          (case nd_get (state_values e) new_n1 new_n2 of
                             Inl err \<Rightarrow> Inl err
                           | Inr v \<Rightarrow> Inr (state_value + p * (r + DISCOUNT * v)))))
               (real_of_int (- CAR_MOVE_COST * \<bar>action\<bar>)))"

subsection \<open>Policy evaluation\<close>

text \<open>
  The body of the sweep for one state. The loop state is the object together with the local
  array \<open>new_values\<close>; the body reads the object and writes \<open>new_values\<close>.
\<close>

definition evaluation_body :: "state \<Rightarrow> env \<times> real ndarray \<Rightarrow> py_error + (env \<times> real ndarray)" where
  "evaluation_body st s =
     (case s of (e, new_values) \<Rightarrow>
        (case nd_get (policy e) (fst st) (snd st) of
           Inl err \<Rightarrow> Inl err
         | Inr action \<Rightarrow>
             (case bellman_expectation e st action of
                Inl err \<Rightarrow> Inl err
              | Inr new_state_value \<Rightarrow>
                  (case nd_set new_values (fst st) (snd st) new_state_value of
                     Inl err \<Rightarrow> Inl err
                   | Inr new_values' \<Rightarrow> Inr (e, new_values')))))"

text \<open>One sweep: the two nested loops over \<open>available_A\<close> and \<open>available_B\<close>.\<close>

definition evaluation_sweep :: "env \<times> real ndarray \<Rightarrow> py_error + (env \<times> real ndarray)" where
  "evaluation_sweep =
     for_each (py_range (MAX_CARS + 1))
       (\<lambda>available_A. for_each (py_range (MAX_CARS + 1))
          (\<lambda>available_B. evaluation_body (available_A, available_B)))"

text \<open>
  The \<open>while True\<close> loop. It is left only by the \<open>return\<close> under \<open>delta < theta\<close> or by an
  exception of the body; the \<open>raise ValueError\<close> that follows the loop in the source cannot
  be reached and has no branch here. A run that never leaves the loop is \<open>None\<close>.
\<close>

partial_function (option) policy_evaluation_loop ::
  "real \<Rightarrow> env \<times> real ndarray \<Rightarrow> (py_error + env) option" where
  "policy_evaluation_loop theta s =
     (case evaluation_sweep s of
        Inl err \<Rightarrow> Some (Inl err)
      | Inr (e, new_values) \<Rightarrow>
          (case nd_max_abs_diff (state_values e) new_values of
             Inl err \<Rightarrow> Some (Inl err)
           | Inr delta \<Rightarrow>
               let e' = e\<lparr>state_values := new_values\<rparr>;
                   new_values' = nd_empty_like (state_values e')
               in if delta < theta then Some (Inr e')
                  else policy_evaluation_loop theta (e', new_values')))"

definition policy_evaluation :: "real \<Rightarrow> env \<Rightarrow> (py_error + env) option" where
  "policy_evaluation theta e = policy_evaluation_loop theta (e, nd_empty_like (state_values e))"

subsection \<open>Policy improvement\<close>

text \<open>The running best value starts at \<open>-float("inf")\<close>.\<close>

datatype best_value = NegInf | Finite real

fun exceeds :: "real \<Rightarrow> best_value \<Rightarrow> bool" where
  "exceeds v NegInf = True"
| "exceeds v (Finite b) = (b < v)"

text \<open>The body of the loop over the available actions of one state.\<close>

definition improvement_action ::
  "env \<Rightarrow> state \<Rightarrow> int \<Rightarrow> int \<times> best_value \<Rightarrow> py_error + (int \<times> best_value)" where
  "improvement_action e st action s =
     (case s of (best_action, best) \<Rightarrow>
        (case bellman_expectation e st action of
           Inl err \<Rightarrow> Inl err
         | Inr v \<Rightarrow> if exceeds v best then Inr (action, Finite v) else Inr (best_action, best)))"

definition improvement_body :: "state \<Rightarrow> env \<times> int ndarray \<Rightarrow> py_error + (env \<times> int ndarray)" where
  "improvement_body st s =
     (case s of (e, new_policy) \<Rightarrow>
        (case nd_get (policy e) (fst st) (snd st) of
           Inl err \<Rightarrow> Inl err
         | Inr best_action0 \<Rightarrow>
             (case for_each (get_available_actions st) (improvement_action e st)
                     (best_action0, NegInf) of
                Inl err \<Rightarrow> Inl err
              | Inr (best_action, best) \<Rightarrow>
                  (case nd_set new_policy (fst st) (snd st) best_action of
                     Inl err \<Rightarrow> Inl err
                   | Inr new_policy' \<Rightarrow> Inr (e, new_policy')))))"

definition improvement_sweep :: "env \<times> int ndarray \<Rightarrow> py_error + (env \<times> int ndarray)" where
  "improvement_sweep =
     for_each (py_range (MAX_CARS + 1))
       (\<lambda>available_A. for_each (py_range (MAX_CARS + 1))
          (\<lambda>available_B. improvement_body (available_A, available_B)))"

text \<open>\<open>policy_improvement\<close> returns the updated object and the flag \<open>converged\<close>.\<close>

definition policy_improvement :: "env \<Rightarrow> py_error + (env \<times> bool)" where
  "policy_improvement e0 =
     (case improvement_sweep (e0, nd_empty_like (policy e0)) of
        Inl err \<Rightarrow> Inl err
      | Inr (e, new_policy) \<Rightarrow>
          let converged = nd_all_equal new_policy (policy e)
          in Inr (e\<lparr>policy := new_policy\<rparr>, converged))"

subsection \<open>Policy iteration\<close>

text \<open>
  The \<open>while True\<close> loop of \<open>policy_iteration\<close>; rendering and logging do not change the
  object and are left out. As in \<open>policy_evaluation\<close>, the \<open>raise\<close> after the loop cannot
  be reached.
\<close>

partial_function (option) policy_iteration :: "env \<Rightarrow> (py_error + env) option" where
  "policy_iteration e =
     (case policy_evaluation (1 / 1000) e of
        None \<Rightarrow> None
      | Some (Inl err) \<Rightarrow> Some (Inl err)
      | Some (Inr e1) \<Rightarrow>
          (case policy_improvement e1 of
             Inl err \<Rightarrow> Some (Inl err)
           | Inr (e2, converged) \<Rightarrow>
               if converged then Some (Inr e2) else policy_iteration e2))"

section \<open>Closed forms and invariants used in the proofs\<close>

subsection \<open>The per-location models in closed form\<close>

text \<open>The value \<open>poisson_probability\<close> computes for a count \<open>k\<close> that is not yet cached.\<close>

definition poisson_pmf :: "int \<Rightarrow> int \<Rightarrow> real" where
  "poisson_pmf lam k = exp (- real_of_int lam) * (real_of_int lam ^ nat k / fact (nat k))"

text \<open>The invariant of the cache \<open>_poisson_prob\<close>: every entry holds the value of its key.\<close>

definition cache_ok :: "((int \<times> int) \<rightharpoonup> real) \<Rightarrow> bool" where
  "cache_ok c \<longleftrightarrow> (\<forall>n lam v. c (n, lam) = Some v \<longrightarrow> 0 \<le> n \<and> v = poisson_pmf lam n)"

text \<open>The expression for \<open>new_n\<close> in the innermost loop of \<open>precompute_model\<close>.\<close>

definition next_inventory :: "int \<Rightarrow> int \<Rightarrow> int \<Rightarrow> int" where
  "next_inventory requests dropoffs n = max 0 (min MAX_CARS (n + dropoffs - min requests n))"

text \<open>One round of the loop over \<open>requests\<close>, without the cache.\<close>

definition model_step :: "int \<Rightarrow> int \<Rightarrow> int \<Rightarrow>
    ((int \<times> int) \<rightharpoonup> real) \<times> (int \<rightharpoonup> real) \<Rightarrow> ((int \<times> int) \<rightharpoonup> real) \<times> (int \<rightharpoonup> real)" where
  "model_step lr ld requests PR =
     (fold (\<lambda>d. prob_loop requests (poisson_pmf lr requests) d (poisson_pmf ld d)) [0..25] (fst PR),
      reward_loop requests (poisson_pmf lr requests) (snd PR))"

text \<open>The key and increment of every \<open>+=\<close> the loops perform on \<open>P\<close> and on \<open>R\<close>, in order.\<close>

definition P_entries :: "int \<Rightarrow> int \<Rightarrow> ((int \<times> int) \<times> real) list" where
  "P_entries lr ld =
     concat (map (\<lambda>req. concat (map (\<lambda>d.
        map (\<lambda>n. ((n, next_inventory req d n), poisson_pmf lr req * poisson_pmf ld d)) [0..25])
        [0..25])) [0..25])"

definition R_entries :: "int \<Rightarrow> (int \<times> real) list" where
  "R_entries lr =
     concat (map (\<lambda>req. map (\<lambda>n. (n, 10 * poisson_pmf lr req * real_of_int (min req n))) [0..25])
       [0..25])"

text \<open>
  The dictionaries \<open>precompute_model\<close> returns (lemma \<open>precompute_model_closed\<close>): \<open>P\<close> has
  the keys \<open>(n, n')\<close> with \<open>n\<close> in \<open>0..25\<close> and \<open>n'\<close> in \<open>0..20\<close>, \<open>R\<close> the keys \<open>0..25\<close>.
\<close>

definition model_P :: "int \<Rightarrow> int \<Rightarrow> (int \<times> int) \<rightharpoonup> real" where
  "model_P lr ld = (\<lambda>(n, n').
     if 0 \<le> n \<and> n \<le> 25 \<and> 0 \<le> n' \<and> n' \<le> 20
     then Some (\<Sum>k\<leftarrow>[0..25]. \<Sum>j\<leftarrow>[0..25].
                  if next_inventory k j n = n' then poisson_pmf lr k * poisson_pmf ld j else 0)
     else None)"

definition model_R :: "int \<Rightarrow> int \<rightharpoonup> real" where
  "model_R lr = (\<lambda>n.
     if 0 \<le> n \<and> n \<le> 25
     then Some (\<Sum>k\<leftarrow>[0..25]. 10 * poisson_pmf lr k * real_of_int (min k n))
     else None)"

subsection \<open>Well-formed objects\<close>

text \<open>
  The four tables are the ones \<open>reset\<close> builds (lemma \<open>reset_closed\<close>); no other method
  assigns them.
\<close>

definition models_built :: "env \<Rightarrow> bool" where
  "models_built e \<longleftrightarrow>
     probs_1 e = model_P REQUEST_1_LAMBDA DROPOFF_1_LAMBDA \<and>
     rewards_1 e = model_R REQUEST_1_LAMBDA \<and>
     probs_2 e = model_P REQUEST_2_LAMBDA DROPOFF_B_LAMBDA \<and>
     rewards_2 e = model_R REQUEST_2_LAMBDA"

text \<open>An array of shape \<open>(MAX_CARS + 1, MAX_CARS + 1)\<close>.\<close>

definition shape21 :: "'a ndarray \<Rightarrow> bool" where
  "shape21 arr \<longleftrightarrow> length arr = 21 \<and> (\<forall>row\<in>set arr. length row = 21)"

text \<open>A state with both components in \<open>[0, MAX_CARS]\<close>.\<close>

definition in_range :: "state \<Rightarrow> bool" where
  "in_range st \<longleftrightarrow> 0 \<le> fst st \<and> fst st \<le> MAX_CARS \<and> 0 \<le> snd st \<and> snd st \<le> MAX_CARS"

text \<open>A state with both components in the domain \<open>[0, MAX_CARS + MAX_MOVE]\<close> of the models.\<close>

definition in_model_domain :: "state \<Rightarrow> bool" where
  "in_model_domain st \<longleftrightarrow>
     0 \<le> fst st \<and> fst st \<le> MAX_CARS + MAX_MOVE \<and> 0 \<le> snd st \<and> snd st \<le> MAX_CARS + MAX_MOVE"

text \<open>
  The objects the methods keep producing from a reset one: the tables of \<open>reset\<close> and two
  arrays of the right shape (lemmas \<open>reset_wf\<close>, \<open>wf_env_values\<close>, \<open>wf_env_policy\<close>).
\<close>

definition wf_env :: "env \<Rightarrow> bool" where
  "wf_env e \<longleftrightarrow> models_built e \<and> shape21 (state_values e) \<and> shape21 (policy e)"

text \<open>The states in the order of the two nested loops over \<open>available_A\<close>, \<open>available_B\<close>.\<close>

definition all_states :: "state list" where
  "all_states = List.product [0..MAX_CARS] [0..MAX_CARS]"

subsection \<open>The Bellman backup as a sum\<close>

text \<open>The values the lookups return, read as numbers (\<open>0\<close> where the lookup raises).\<close>

definition prob_of :: "env \<Rightarrow> state \<Rightarrow> state \<Rightarrow> real" where
  "prob_of e st new_state =
     (case get_transition_probability e st new_state of Inl err \<Rightarrow> 0 | Inr p \<Rightarrow> p)"

definition reward_of :: "env \<Rightarrow> state \<Rightarrow> real" where
  "reward_of e st = (case get_reward e st of Inl err \<Rightarrow> 0 | Inr r \<Rightarrow> r)"

definition value_of :: "env \<Rightarrow> state \<Rightarrow> real" where
  "value_of e st = (case nd_get (state_values e) (fst st) (snd st) of Inl err \<Rightarrow> 0 | Inr v \<Rightarrow> v)"

text \<open>The morning state \<open>step\<close> reaches with the clamped action.\<close>

definition morning :: "state \<Rightarrow> int \<Rightarrow> state" where
  "morning st action =
     (fst st - get_valid_action st action, snd st + get_valid_action st action)"

text \<open>What the loop of \<open>bellman_expectation\<close> adds up, when no lookup raises.\<close>

definition bellman_sum :: "env \<Rightarrow> state \<Rightarrow> int \<Rightarrow> real" where
  "bellman_sum e st action =
     - real_of_int (CAR_MOVE_COST * \<bar>get_valid_action st action\<bar>)
     + (\<Sum>n1\<leftarrow>[0..MAX_CARS]. \<Sum>n2\<leftarrow>[0..MAX_CARS].
          prob_of e (morning st action) (n1, n2)
            * (reward_of e (morning st action) + DISCOUNT * value_of e (n1, n2)))"

text \<open>
  The formula of the specification for the backup, to be compared with \<open>bellman_sum\<close>:
  minus the movement cost, plus the immediate reward \<open>R\<close> once, plus the expected future
  value, the sum over the next states of \<open>Prob1 * Prob2 * (gamma * V)\<close>.
\<close>

definition bellman_spec :: "env \<Rightarrow> state \<Rightarrow> int \<Rightarrow> real" where
  "bellman_spec e st action =
     - real_of_int (CAR_MOVE_COST * \<bar>get_valid_action st action\<bar>)
     + reward_of e (morning st action)
     + (\<Sum>n1\<leftarrow>[0..MAX_CARS]. \<Sum>n2\<leftarrow>[0..MAX_CARS].
          prob_of e (morning st action) (n1, n2) * (DISCOUNT * value_of e (n1, n2)))"

subsection \<open>Truncated probability mass\<close>

text \<open>\<open>poisson_probability(k, lam)\<close> on an empty cache, read as a number.\<close>

definition poisson_value :: "int \<Rightarrow> int \<Rightarrow> real" where
  "poisson_value lam k =
     (case poisson_probability k lam Map.empty of Inl err \<Rightarrow> 0 | Inr (v, cache) \<Rightarrow> v)"

text \<open>The sum of the Poisson masses over the truncated domain of \<open>precompute_model\<close>.\<close>

definition poisson_mass :: "int \<Rightarrow> real" where
  "poisson_mass lam = (\<Sum>k\<leftarrow>py_range (MAX_CARS + Max (set ACTIONS) + 1). poisson_value lam k)"

text \<open>The sum over \<open>n'\<close> of \<open>P[(n, n')]\<close>; the keys of \<open>P\<close> have \<open>n'\<close> in \<open>0..MAX_CARS\<close>.\<close>

definition row_sum :: "((int \<times> int) \<rightharpoonup> real) \<Rightarrow> int \<Rightarrow> real" where
  "row_sum P n = (\<Sum>n'\<leftarrow>[0..MAX_CARS]. case P (n, n') of None \<Rightarrow> 0 | Some p \<Rightarrow> p)"

text \<open>The sum of the joint transition probabilities out of any morning state.\<close>

definition total_mass :: real where
  "total_mass = poisson_mass REQUEST_1_LAMBDA * poisson_mass DROPOFF_1_LAMBDA
              * (poisson_mass REQUEST_2_LAMBDA * poisson_mass DROPOFF_B_LAMBDA)"

subsection \<open>The two sweeps as cell writers\<close>

text \<open>
  Both sweep bodies compute a value from the object and the state and store it in the
  cell of the state; \<open>write_cell\<close> is that pattern (lemmas \<open>evaluation_body_write\<close> and
  \<open>improvement_body_write\<close>).
\<close>

definition write_cell ::
  "(env \<Rightarrow> state \<Rightarrow> py_error + 'a) \<Rightarrow> state \<Rightarrow> env \<times> 'a ndarray \<Rightarrow> py_error + (env \<times> 'a ndarray)" where
  "write_cell g st s =
     (case s of (e, arr) \<Rightarrow>
        (case g e st of
           Inl err \<Rightarrow> Inl err
         | Inr v \<Rightarrow>
             (case nd_set arr (fst st) (snd st) v of
                Inl err \<Rightarrow> Inl err
              | Inr arr' \<Rightarrow> Inr (e, arr'))))"

text \<open>The array whose cell \<open>(i, j)\<close> holds \<open>f (i, j)\<close>.\<close>

definition nd_tabulate :: "(state \<Rightarrow> 'a) \<Rightarrow> 'a ndarray" where
  "nd_tabulate f = map (\<lambda>i. map (\<lambda>j. f (i, j)) [0..MAX_CARS]) [0..MAX_CARS]"

text \<open>\<open>bellman_expectation(state, policy[state])\<close>, the value an evaluation sweep stores.\<close>

definition policy_value :: "env \<Rightarrow> state \<Rightarrow> py_error + real" where
  "policy_value e st =
     (case nd_get (policy e) (fst st) (snd st) of
        Inl err \<Rightarrow> Inl err
      | Inr action \<Rightarrow> bellman_expectation e st action)"

text \<open>The action an improvement sweep stores for a state.\<close>

definition greedy_action :: "env \<Rightarrow> state \<Rightarrow> py_error + int" where
  "greedy_action e st =
     (case nd_get (policy e) (fst st) (snd st) of
        Inl err \<Rightarrow> Inl err
      | Inr best_action0 \<Rightarrow>
          (case for_each (get_available_actions st) (improvement_action e st)
                  (best_action0, NegInf) of
             Inl err \<Rightarrow> Inl err
           | Inr (best_action, best) \<Rightarrow> Inr best_action))"

text \<open>The loop over the actions when every backup returns the number \<open>val action\<close>.\<close>

definition greedy_scan :: "(int \<Rightarrow> real) \<Rightarrow> int list \<Rightarrow> int \<times> best_value \<Rightarrow> int \<times> best_value" where
  "greedy_scan val actions =
     fold (\<lambda>action (best_action, best).
        if exceeds (val action) best then (action, Finite (val action)) else (best_action, best))
       actions"

definition best_action_of :: "env \<Rightarrow> state \<Rightarrow> int" where
  "best_action_of e st = fst (greedy_scan (bellman_sum e st) (get_available_actions st) (0, NegInf))"

subsection \<open>A value table that favours moving five cars\<close>

text \<open>
  The zero table with row \<open>0\<close> set to \<open>-1e6\<close>, as after
  \<open>env.state_values[0, :] = -1e6\<close>: an empty location 1 on the next morning is very bad.
\<close>

definition bad_values :: "real ndarray" where
  "bad_values = replicate 21 (- 1000000) # replicate 20 (replicate 21 0)"

section \<open>Auxiliary lemmas\<close>

subsection \<open>Loops and dictionaries\<close>

lemma for_each_append:
  "for_each (xs @ ys) body s =
     (case for_each xs body s of Inl err \<Rightarrow> Inl err | Inr s' \<Rightarrow> for_each ys body s')"
  by (induction xs arbitrary: s) (auto split: sum.splits)

lemma for_each_map:
  "for_each (map g xs) body s = for_each xs (\<lambda>x. body (g x)) s"
  by (induction xs arbitrary: s) (auto split: sum.splits)

lemma for_each_nested:
  "for_each xs (\<lambda>a. for_each ys (\<lambda>b. body (a, b))) s = for_each (List.product xs ys) body s"
  by (induction xs arbitrary: s) (auto simp: for_each_append for_each_map split: sum.splits)

lemma model_range: "py_range (MAX_CARS + Max (set ACTIONS) + 1) = [0..25]"
  by (simp add: py_range_def MAX_CARS_def ACTIONS_def)

lemma cars_range: "py_range (MAX_CARS + 1) = [0..20]"
  by (simp add: py_range_def MAX_CARS_def)

lemma dict_add_apply:
  "dict_add d k' v k =
     (if k = k' then Some ((case d k of None \<Rightarrow> 0 | Some x \<Rightarrow> x) + v) else d k)"
  by (simp add: dict_add_def)

lemma dict_add_fold:
  "fold (\<lambda>x d. dict_add d (key x) (val x)) xs d k =
     (if k \<in> key ` set xs
      then Some ((case d k of None \<Rightarrow> 0 | Some v \<Rightarrow> v) + sum_list (map val (filter (\<lambda>x. key x = k) xs)))
      else d k)"
proof (induction xs arbitrary: d)
  case Nil
  then show ?case by simp
next
  case (Cons a xs)
  have e: "k \<notin> key ` set xs \<Longrightarrow> filter (\<lambda>x. key x = k) xs = []"
    by (force simp: filter_empty_conv image_iff)
  have "fold (\<lambda>x d. dict_add d (key x) (val x)) (a # xs) d k
      = fold (\<lambda>x d. dict_add d (key x) (val x)) xs (dict_add d (key a) (val a)) k"
    by simp
  also have "\<dots> = (if k \<in> key ` set (a # xs)
      then Some ((case d k of None \<Rightarrow> 0 | Some v \<Rightarrow> v) + sum_list (map val (filter (\<lambda>x. key x = k) (a # xs))))
      else d k)"
    unfolding Cons.IH using e
    by (cases "k = key a"; cases "k \<in> key ` set xs") (simp_all add: dict_add_apply)
  finally show ?case .
qed

subsection \<open>The loops of precompute_model without the cache\<close>

lemma cache_ok_empty: "cache_ok Map.empty"
  by (simp add: cache_ok_def)

lemma poisson_probability_ok:
  assumes "cache_ok c" "0 \<le> n"
  shows "\<exists>c'. poisson_probability n lam c = Inr (poisson_pmf lam n, c') \<and> cache_ok c'"
proof (cases "c (n, lam)")
  case None
  then show ?thesis using assms
    by (auto simp: poisson_probability_def poisson_pmf_def cache_ok_def Let_def)
next
  case (Some v)
  then show ?thesis using assms
    by (auto simp: poisson_probability_def cache_ok_def)
qed

lemma dropoffs_loop_gen:
  assumes "cache_ok c" "\<forall>x\<in>set xs. 0 \<le> x"
  shows "\<exists>c'. for_each xs
       (\<lambda>dropoffs (P, cache).
           case poisson_probability dropoffs lam cache of
             Inl err \<Rightarrow> Inl err
           | Inr (dropoffs_prob, cache') \<Rightarrow>
               Inr (g dropoffs dropoffs_prob P, cache')) (P, c)
     = Inr (fold (\<lambda>d. g d (poisson_pmf lam d)) xs P, c') \<and> cache_ok c'"
  using assms
proof (induction xs arbitrary: P c)
  case Nil
  then show ?case by simp
next
  case (Cons x xs)
  from Cons.prems obtain c1 where
    c1: "poisson_probability x lam c = Inr (poisson_pmf lam x, c1)" "cache_ok c1"
    using poisson_probability_ok [of c x lam] by auto
  from Cons.IH [OF c1(2), where P="g x (poisson_pmf lam x) P"] Cons.prems(2)
  show ?case by (simp add: c1)
qed

lemma dropoffs_loop_ok:
  assumes "cache_ok c"
  shows "\<exists>c'. dropoffs_loop ld requests rp (P, c)
     = Inr (fold (\<lambda>d. prob_loop requests rp d (poisson_pmf ld d)) [0..25] P, c') \<and> cache_ok c'"
  unfolding dropoffs_loop_def model_range
  by (rule dropoffs_loop_gen [OF assms]) simp

lemma requests_loop_gen:
  assumes "cache_ok c" "\<forall>x\<in>set xs. 0 \<le> x"
  shows "\<exists>c'. for_each xs
             (\<lambda>requests (P, R, cache).
                 case poisson_probability requests lr cache of
                   Inl err \<Rightarrow> Inl err
                 | Inr (request_prob, cache1) \<Rightarrow>
                     let R' = reward_loop requests request_prob R
                     in (case dropoffs_loop ld requests request_prob (P, cache1) of
                           Inl err \<Rightarrow> Inl err
                         | Inr (P', cache2) \<Rightarrow> Inr (P', R', cache2)))
             (P, R, c)
        = Inr (fst (fold (model_step lr ld) xs (P, R)), snd (fold (model_step lr ld) xs (P, R)), c')
          \<and> cache_ok c'"
  using assms
proof (induction xs arbitrary: P R c)
  case Nil
  then show ?case by simp
next
  case (Cons x xs)
  from Cons.prems obtain c1 where
    c1: "poisson_probability x lr c = Inr (poisson_pmf lr x, c1)" "cache_ok c1"
    using poisson_probability_ok [of c x lr] by auto
  from dropoffs_loop_ok [OF c1(2), where ld=ld and requests=x and rp="poisson_pmf lr x" and P=P] obtain c2 where
    c2: "dropoffs_loop ld x (poisson_pmf lr x) (P, c1)
       = Inr (fold (\<lambda>d. prob_loop x (poisson_pmf lr x) d (poisson_pmf ld d)) [0..25] P, c2)"
      "cache_ok c2"
    by auto
  from Cons.IH [OF c2(2), where P="fst (model_step lr ld x (P, R))" and R="snd (model_step lr ld x (P, R))"]
    Cons.prems(2)
  show ?case by (simp add: c1 c2 model_step_def)
qed

lemma precompute_model_fold:
  assumes "cache_ok c"
  shows "\<exists>c'. precompute_model lr ld c
      = Inr (fold (model_step lr ld) [0..25] (Map.empty, Map.empty), c') \<and> cache_ok c'"
proof -
  from requests_loop_gen [OF assms, where xs="[0..25]" and lr=lr and ld=ld and P=Map.empty and R=Map.empty]
  obtain c' where "for_each [0..25]
             (\<lambda>requests (P, R, cache).
                 case poisson_probability requests lr cache of
                   Inl err \<Rightarrow> Inl err
                 | Inr (request_prob, cache1) \<Rightarrow>
                     let R' = reward_loop requests request_prob R
                     in (case dropoffs_loop ld requests request_prob (P, cache1) of
                           Inl err \<Rightarrow> Inl err
                         | Inr (P', cache2) \<Rightarrow> Inr (P', R', cache2)))
             (Map.empty, Map.empty, c)
        = Inr (fst (fold (model_step lr ld) [0..25] (Map.empty, Map.empty)),
               snd (fold (model_step lr ld) [0..25] (Map.empty, Map.empty)), c')" "cache_ok c'"
    by auto
  then show ?thesis
    unfolding precompute_model_def model_range by auto
qed

subsection \<open>The accumulated entries\<close>

lemma prob_loop_eq:
  "prob_loop requests rp dropoffs dp P =
     fold (\<lambda>n P. dict_add P (n, next_inventory requests dropoffs n) (rp * dp)) [0..25] P"
  by (simp add: prob_loop_def model_range next_inventory_def Let_def)

lemma reward_loop_eq:
  "reward_loop requests rp R =
     fold (\<lambda>n R. dict_add R n (10 * rp * real_of_int (min requests n))) [0..25] R"
  by (simp add: reward_loop_def model_range CAR_RENTAL_COST_def)

lemma fold_model_step_fst:
  "fst (fold (model_step lr ld) xs (P, R)) =
     fold (\<lambda>req P. fold (\<lambda>d. prob_loop req (poisson_pmf lr req) d (poisson_pmf ld d)) [0..25] P) xs P"
  by (induction xs arbitrary: P R) (simp_all add: model_step_def)

lemma fold_model_step_snd:
  "snd (fold (model_step lr ld) xs (P, R)) =
     fold (\<lambda>req R. reward_loop req (poisson_pmf lr req) R) xs R"
  by (induction xs arbitrary: P R) (simp_all add: model_step_def)

lemma fold_concat_list: "fold f (concat xss) = fold (fold f) xss"
  by (induction xss) simp_all

lemma sum_list_concat_real: "sum_list (concat xss) = (\<Sum>xs\<leftarrow>xss. sum_list xs :: real)"
  by (induction xss) simp_all

lemma P_entries_mem:
  "((n, n'), p) \<in> set (P_entries lr ld) \<Longrightarrow> 0 \<le> n \<and> n \<le> 25 \<and> 0 \<le> n' \<and> n' \<le> 20"
  unfolding P_entries_def by (auto simp: next_inventory_def MAX_CARS_def)

lemma P_entries_intro:
  "0 \<le> k \<Longrightarrow> k \<le> 25 \<Longrightarrow> 0 \<le> j \<Longrightarrow> j \<le> 25 \<Longrightarrow> 0 \<le> n \<Longrightarrow> n \<le> 25 \<Longrightarrow>
     ((n, next_inventory k j n), poisson_pmf lr k * poisson_pmf ld j) \<in> set (P_entries lr ld)"
  unfolding P_entries_def by force

lemma fold_P_entries:
  "fst (fold (model_step lr ld) [0..25] (P, R)) =
     fold (\<lambda>x d. dict_add d (fst x) (snd x)) (P_entries lr ld) P"
  unfolding fold_model_step_fst P_entries_def prob_loop_eq
  by (simp only: fold_concat_list fold_map comp_def fst_conv snd_conv)

lemma fold_R_entries:
  "snd (fold (model_step lr ld) [0..25] (P, R)) =
     fold (\<lambda>x d. dict_add d (fst x) (snd x)) (R_entries lr) R"
  unfolding fold_model_step_snd R_entries_def reward_loop_eq
  by (simp only: fold_concat_list fold_map comp_def fst_conv snd_conv)

lemma sum_list_map_filter_if:
  "sum_list (map f (filter Q xs)) = sum_list (map (\<lambda>x. if Q x then f x else (0::real)) xs)"
  by (induction xs) auto

lemma sum_list_delta:
  "distinct xs \<Longrightarrow>
   sum_list (map (\<lambda>x. if x = a \<and> Q x then v x else (0::real)) xs)
     = (if a \<in> set xs \<and> Q a then v a else 0)"
  by (induction xs) auto

lemma P_entries_keys:
  "(n, n') \<in> fst ` set (P_entries lr ld) \<longleftrightarrow> 0 \<le> n \<and> n \<le> 25 \<and> 0 \<le> n' \<and> n' \<le> 20"
proof
  assume "(n, n') \<in> fst ` set (P_entries lr ld)"
  then show "0 \<le> n \<and> n \<le> 25 \<and> 0 \<le> n' \<and> n' \<le> 20"
    by (auto dest!: P_entries_mem)
next
  assume h: "0 \<le> n \<and> n \<le> 25 \<and> 0 \<le> n' \<and> n' \<le> 20"
  then have "next_inventory n n' n = n'"
    by (simp add: next_inventory_def MAX_CARS_def)
  with h have "((n, n'), poisson_pmf lr n * poisson_pmf ld n') \<in> set (P_entries lr ld)"
    using P_entries_intro [of n n' n lr ld] by simp
  then show "(n, n') \<in> fst ` set (P_entries lr ld)"
    by force
qed

lemma P_entries_sum:
  "sum_list (map snd (filter (\<lambda>x. fst x = (n, n')) (P_entries lr ld))) =
     (\<Sum>k\<leftarrow>[0..25]. \<Sum>j\<leftarrow>[0..25].
        if 0 \<le> n \<and> n \<le> 25 \<and> next_inventory k j n = n'
        then poisson_pmf lr k * poisson_pmf ld j else 0)"
proof -
  have inner: "\<And>k j. sum_list (map snd (filter (\<lambda>x. fst x = (n, n'))
           (map (\<lambda>m. ((m, next_inventory k j m), poisson_pmf lr k * poisson_pmf ld j)) [0..25])))
        = (if 0 \<le> n \<and> n \<le> 25 \<and> next_inventory k j n = n'
           then poisson_pmf lr k * poisson_pmf ld j else 0)"
  proof -
    fix k j
    have "sum_list (map snd (filter (\<lambda>x. fst x = (n, n'))
           (map (\<lambda>m. ((m, next_inventory k j m), poisson_pmf lr k * poisson_pmf ld j)) [0..25])))
      = sum_list (map (\<lambda>m. if m = n \<and> next_inventory k j m = n'
             then poisson_pmf lr k * poisson_pmf ld j else 0) [0..25])"
      by (simp add: sum_list_map_filter_if comp_def cong: if_cong)
    also have "\<dots> = (if n \<in> set [0..25] \<and> next_inventory k j n = n'
           then poisson_pmf lr k * poisson_pmf ld j else 0)"
      by (rule sum_list_delta) simp
    finally show "sum_list (map snd (filter (\<lambda>x. fst x = (n, n'))
           (map (\<lambda>m. ((m, next_inventory k j m), poisson_pmf lr k * poisson_pmf ld j)) [0..25])))
        = (if 0 \<le> n \<and> n \<le> 25 \<and> next_inventory k j n = n'
           then poisson_pmf lr k * poisson_pmf ld j else 0)"
      by simp
  qed
  show ?thesis
    unfolding P_entries_def
    by (simp only: filter_concat map_concat sum_list_concat_real map_map comp_def inner)
qed

subsection \<open>The tables in closed form\<close>

lemma fold_P_entries_closed:
  "fold (\<lambda>x d. dict_add d (fst x) (snd x)) (P_entries lr ld) Map.empty = model_P lr ld"
proof (rule ext)
  fix key :: "int \<times> int"
  obtain n n' where key: "key = (n, n')" by (cases key)
  show "fold (\<lambda>x d. dict_add d (fst x) (snd x)) (P_entries lr ld) Map.empty key = model_P lr ld key"
    unfolding key dict_add_fold P_entries_keys P_entries_sum
    by (simp add: model_P_def cong: if_cong)
qed

lemma R_entries_keys: "n \<in> fst ` set (R_entries lr) \<longleftrightarrow> 0 \<le> n \<and> n \<le> 25"
  unfolding R_entries_def by force

lemma R_entries_sum:
  "sum_list (map snd (filter (\<lambda>x. fst x = n) (R_entries lr))) =
     (\<Sum>k\<leftarrow>[0..25]. if 0 \<le> n \<and> n \<le> 25
        then 10 * poisson_pmf lr k * real_of_int (min k n) else 0)"
proof -
  have inner: "\<And>k. sum_list (map snd (filter (\<lambda>x. fst x = n)
           (map (\<lambda>m. (m, 10 * poisson_pmf lr k * real_of_int (min k m))) [0..25])))
        = (if 0 \<le> n \<and> n \<le> 25 then 10 * poisson_pmf lr k * real_of_int (min k n) else 0)"
  proof -
    fix k
    have "sum_list (map snd (filter (\<lambda>x. fst x = n)
           (map (\<lambda>m. (m, 10 * poisson_pmf lr k * real_of_int (min k m))) [0..25])))
      = sum_list (map (\<lambda>m. if m = n \<and> True
             then 10 * poisson_pmf lr k * real_of_int (min k m) else 0) [0..25])"
      by (simp add: sum_list_map_filter_if comp_def cong: if_cong)
    also have "\<dots> = (if n \<in> set [0..25] \<and> True
           then 10 * poisson_pmf lr k * real_of_int (min k n) else 0)"
      by (rule sum_list_delta) simp
    finally show "sum_list (map snd (filter (\<lambda>x. fst x = n)
           (map (\<lambda>m. (m, 10 * poisson_pmf lr k * real_of_int (min k m))) [0..25])))
        = (if 0 \<le> n \<and> n \<le> 25 then 10 * poisson_pmf lr k * real_of_int (min k n) else 0)"
      by simp
  qed
  show ?thesis
    unfolding R_entries_def
    by (simp only: filter_concat map_concat sum_list_concat_real map_map comp_def inner)
qed

lemma fold_R_entries_closed:
  "fold (\<lambda>x d. dict_add d (fst x) (snd x)) (R_entries lr) Map.empty = model_R lr"
proof (rule ext)
  fix n :: int
  show "fold (\<lambda>x d. dict_add d (fst x) (snd x)) (R_entries lr) Map.empty n = model_R lr n"
    unfolding dict_add_fold R_entries_keys R_entries_sum
    by (simp add: model_R_def cong: if_cong)
qed

lemma precompute_model_closed:
  assumes "cache_ok c"
  shows "\<exists>c'. precompute_model lr ld c = Inr ((model_P lr ld, model_R lr), c') \<and> cache_ok c'"
proof -
  have "fold (model_step lr ld) [0..25] (Map.empty, Map.empty) = (model_P lr ld, model_R lr)"
    by (rule prod_eqI) (simp_all add: fold_P_entries fold_R_entries
          fold_P_entries_closed fold_R_entries_closed)
  with precompute_model_fold [OF assms, where lr=lr and ld=ld] show ?thesis by simp
qed

lemma reset_closed:
  "\<exists>c. reset = Inr \<lparr> poisson_prob = c,
           state_values = nd_zeros (MAX_CARS + 1) (MAX_CARS + 1),
           policy = nd_zeros (MAX_CARS + 1) (MAX_CARS + 1),
           probs_1 = model_P REQUEST_1_LAMBDA DROPOFF_1_LAMBDA,
           rewards_1 = model_R REQUEST_1_LAMBDA,
           probs_2 = model_P REQUEST_2_LAMBDA DROPOFF_B_LAMBDA,
           rewards_2 = model_R REQUEST_2_LAMBDA \<rparr>"
proof -
  from precompute_model_closed [OF cache_ok_empty, where lr=REQUEST_1_LAMBDA and ld=DROPOFF_1_LAMBDA]
  obtain c1 where c1: "precompute_model REQUEST_1_LAMBDA DROPOFF_1_LAMBDA Map.empty
      = Inr ((model_P REQUEST_1_LAMBDA DROPOFF_1_LAMBDA, model_R REQUEST_1_LAMBDA), c1)" "cache_ok c1"
    by auto
  from precompute_model_closed [OF c1(2), where lr=REQUEST_2_LAMBDA and ld=DROPOFF_B_LAMBDA]
  obtain c2 where c2: "precompute_model REQUEST_2_LAMBDA DROPOFF_B_LAMBDA c1
      = Inr ((model_P REQUEST_2_LAMBDA DROPOFF_B_LAMBDA, model_R REQUEST_2_LAMBDA), c2)"
    by auto
  show ?thesis unfolding reset_def by (simp add: c1 c2)
qed

subsection \<open>Arrays and the Bellman backup\<close>

lemma shape21_nth: "shape21 arr \<Longrightarrow> i < 21 \<Longrightarrow> length (arr ! i) = 21"
  by (simp add: shape21_def)

lemma nd_index_ok: "0 \<le> i \<Longrightarrow> i < int len \<Longrightarrow> nd_index len i = Inr (nat i)"
  by (simp add: nd_index_def)

lemma nd_get_ok:
  "shape21 arr \<Longrightarrow> 0 \<le> i \<Longrightarrow> i \<le> 20 \<Longrightarrow> 0 \<le> j \<Longrightarrow> j \<le> 20 \<Longrightarrow>
     nd_get arr i j = Inr (arr ! nat i ! nat j)"
  by (simp add: nd_get_def nd_index_ok shape21_def)

lemma nd_set_ok:
  "shape21 arr \<Longrightarrow> 0 \<le> i \<Longrightarrow> i \<le> 20 \<Longrightarrow> 0 \<le> j \<Longrightarrow> j \<le> 20 \<Longrightarrow>
     nd_set arr i j v = Inr (arr[nat i := (arr ! nat i)[nat j := v]])"
  by (simp add: nd_set_def nd_index_ok shape21_def)

lemma shape21_update:
  "shape21 arr \<Longrightarrow> i < 21 \<Longrightarrow> shape21 (arr[i := (arr ! i)[j := v]])"
  by (auto simp: shape21_def dest!: set_update_subset_insert [THEN subsetD])

lemma shape21_zeros: "shape21 (nd_zeros (MAX_CARS + 1) (MAX_CARS + 1))"
  by (simp add: shape21_def nd_zeros_def MAX_CARS_def)

lemma shape21_empty_like: "shape21 arr \<Longrightarrow> shape21 (nd_empty_like arr)"
  by (auto simp: shape21_def nd_empty_like_def)

lemma model_P_none_iff:
  "model_P lr ld (n, n') = None \<longleftrightarrow> \<not> (0 \<le> n \<and> n \<le> 25 \<and> 0 \<le> n' \<and> n' \<le> 20)"
  by (simp add: model_P_def)

lemma model_R_none_iff: "model_R lr n = None \<longleftrightarrow> \<not> (0 \<le> n \<and> n \<le> 25)"
  by (simp add: model_R_def)

lemma get_reward_ok:
  assumes "models_built e" "0 \<le> m1" "m1 \<le> 25" "0 \<le> m2" "m2 \<le> 25"
  shows "get_reward e (m1, m2) = Inr (reward_of e (m1, m2))"
proof -
  from assms obtain r1 r2 where "rewards_1 e m1 = Some r1" "rewards_2 e m2 = Some r2"
    using model_R_none_iff [of REQUEST_1_LAMBDA m1] model_R_none_iff [of REQUEST_2_LAMBDA m2]
    by (auto simp: models_built_def)
  then show ?thesis by (simp add: reward_of_def get_reward_def dict_get_def)
qed

lemma get_transition_probability_ok:
  assumes "models_built e" "0 \<le> m1" "m1 \<le> 25" "0 \<le> m2" "m2 \<le> 25"
    "0 \<le> n1" "n1 \<le> 20" "0 \<le> n2" "n2 \<le> 20"
  shows "get_transition_probability e (m1, m2) (n1, n2) = Inr (prob_of e (m1, m2) (n1, n2))"
proof -
  from assms obtain p1 p2 where "probs_1 e (m1, n1) = Some p1" "probs_2 e (m2, n2) = Some p2"
    using model_P_none_iff [of REQUEST_1_LAMBDA DROPOFF_1_LAMBDA m1 n1]
      model_P_none_iff [of REQUEST_2_LAMBDA DROPOFF_B_LAMBDA m2 n2]
    by (auto simp: models_built_def)
  then show ?thesis by (simp add: prob_of_def get_transition_probability_def dict_get_def)
qed

lemma for_each_accumulate:
  "(\<And>x s. x \<in> set xs \<Longrightarrow> body x s = Inr (s + h x)) \<Longrightarrow>
     for_each xs body s = Inr (s + sum_list (map h xs) :: real)"
  by (induction xs arbitrary: s) (simp_all add: add.assoc)

lemma get_valid_action_bounds:
  assumes "0 \<le> n1" "n1 \<le> 20" "0 \<le> n2" "n2 \<le> 20"
  shows "- 5 \<le> get_valid_action (n1, n2) a \<and> get_valid_action (n1, n2) a \<le> 5
       \<and> - n2 \<le> get_valid_action (n1, n2) a \<and> get_valid_action (n1, n2) a \<le> n1"
  using assms by (auto simp: get_valid_action_def MAX_MOVE_def Let_def)

lemma morning_bounds:
  assumes "in_range st"
  shows "0 \<le> fst (morning st a) \<and> fst (morning st a) \<le> 25
       \<and> 0 \<le> snd (morning st a) \<and> snd (morning st a) \<le> 25"
  using assms get_valid_action_bounds [of "fst st" "snd st" a]
  by (simp add: in_range_def morning_def MAX_CARS_def)

lemma bellman_expectation_morning:
  assumes mb: "models_built e" and sh: "shape21 (state_values e)"
    and m: "0 \<le> fst (morning st a)" "fst (morning st a) \<le> 25"
           "0 \<le> snd (morning st a)" "snd (morning st a) \<le> 25"
  shows "bellman_expectation e st a = Inr (bellman_sum e st a)"
proof -
  obtain m1 m2 where mo: "morning st a = (m1, m2)" by (cases "morning st a")
  with m have mr: "0 \<le> m1" "m1 \<le> 25" "0 \<le> m2" "m2 \<le> 25" by simp_all
  have st: "step e st (get_valid_action st a) = Inr ((m1, m2), reward_of e (m1, m2))"
    using mo get_reward_ok [OF mb mr] by (simp add: step_def morning_def Let_def)
  have inner: "\<And>n1 n2 s. n1 \<in> set [0..20] \<Longrightarrow> n2 \<in> set [0..20] \<Longrightarrow>
      (case get_transition_probability e (m1, m2) (n1, n2) of
         Inl err \<Rightarrow> Inl err
       | Inr p \<Rightarrow>
           (case nd_get (state_values e) n1 n2 of
              Inl err \<Rightarrow> Inl err
            | Inr v \<Rightarrow> Inr (s + p * (reward_of e (m1, m2) + DISCOUNT * v))))
      = Inr (s + prob_of e (m1, m2) (n1, n2)
               * (reward_of e (m1, m2) + DISCOUNT * value_of e (n1, n2)))"
    using get_transition_probability_ok [OF mb mr] nd_get_ok [OF sh]
    by (simp add: value_of_def)
  have row: "\<And>n1 s. n1 \<in> set [0..20] \<Longrightarrow>
      for_each [0..20]
        (\<lambda>new_n2 state_value.
           case get_transition_probability e (m1, m2) (n1, new_n2) of
             Inl err \<Rightarrow> Inl err
           | Inr p \<Rightarrow>
               (case nd_get (state_values e) n1 new_n2 of
                  Inl err \<Rightarrow> Inl err
                | Inr v \<Rightarrow> Inr (state_value + p * (reward_of e (m1, m2) + DISCOUNT * v)))) s
      = Inr (s + (\<Sum>n2\<leftarrow>[0..20]. prob_of e (m1, m2) (n1, n2)
               * (reward_of e (m1, m2) + DISCOUNT * value_of e (n1, n2))))"
    by (rule for_each_accumulate) (rule inner)
  have all: "\<And>s. for_each [0..20] (\<lambda>new_n1. for_each [0..20]
        (\<lambda>new_n2 state_value.
           case get_transition_probability e (m1, m2) (new_n1, new_n2) of
             Inl err \<Rightarrow> Inl err
           | Inr p \<Rightarrow>
               (case nd_get (state_values e) new_n1 new_n2 of
                  Inl err \<Rightarrow> Inl err
                | Inr v \<Rightarrow> Inr (state_value + p * (reward_of e (m1, m2) + DISCOUNT * v))))) s
      = Inr (s + (\<Sum>n1\<leftarrow>[0..20]. \<Sum>n2\<leftarrow>[0..20]. prob_of e (m1, m2) (n1, n2)
               * (reward_of e (m1, m2) + DISCOUNT * value_of e (n1, n2))))"
    by (rule for_each_accumulate) (rule row)
  show ?thesis
    unfolding bellman_expectation_def Let_def st cars_range
    by (simp add: all bellman_sum_def mo MAX_CARS_def)
qed

lemma bellman_expectation_ok:
  assumes "wf_env e" "in_range st"
  shows "bellman_expectation e st a = Inr (bellman_sum e st a)"
  using assms morning_bounds [OF assms(2), of a]
  by (intro bellman_expectation_morning) (simp_all add: wf_env_def)

subsection \<open>Sweeps that write one cell per state\<close>

lemma evaluation_body_write: "evaluation_body = write_cell policy_value"
  by (intro ext) (simp add: evaluation_body_def write_cell_def policy_value_def
      split: prod.splits sum.splits)

lemma improvement_body_write: "improvement_body = write_cell greedy_action"
  by (intro ext) (simp add: improvement_body_def write_cell_def greedy_action_def
      split: prod.splits sum.splits)

lemma evaluation_sweep_states: "evaluation_sweep = for_each all_states evaluation_body"
  by (intro ext) (simp add: evaluation_sweep_def all_states_def py_range_def for_each_nested)

lemma improvement_sweep_states: "improvement_sweep = for_each all_states improvement_body"
  by (intro ext) (simp add: improvement_sweep_def all_states_def py_range_def for_each_nested)

lemma set_all_states: "set all_states = {st. in_range st}"
  by (auto simp: all_states_def in_range_def)

lemma nd_tabulate_nth:
  "i < 21 \<Longrightarrow> j < 21 \<Longrightarrow> nd_tabulate f ! i ! j = f (int i, int j)"
  by (simp add: nd_tabulate_def MAX_CARS_def nth_upto)

lemma shape21_tabulate: "shape21 (nd_tabulate f)"
  by (simp add: nd_tabulate_def shape21_def MAX_CARS_def)

lemma shape21_eqI:
  assumes "shape21 a" "shape21 b" "\<And>i j. i < 21 \<Longrightarrow> j < 21 \<Longrightarrow> a ! i ! j = b ! i ! j"
  shows "a = b"
proof (rule nth_equalityI)
  show "length a = length b" using assms by (simp add: shape21_def)
next
  fix i assume "i < length a"
  then have i: "i < 21" using assms(1) by (simp add: shape21_def)
  show "a ! i = b ! i"
  proof (rule nth_equalityI)
    show "length (a ! i) = length (b ! i)"
      using assms(1,2) i by (simp add: shape21_nth)
  next
    fix j assume "j < length (a ! i)"
    then have "j < 21" using assms(1) i by (simp add: shape21_nth)
    then show "a ! i ! j = b ! i ! j" using i assms(3) by simp
  qed
qed

text \<open>A sweep that writes \<open>f st\<close> into the cell of every visited state.\<close>

lemma write_cells:
  assumes "shape21 arr" "\<forall>st\<in>set order. in_range st \<and> g e st = Inr (f st)"
  shows "\<exists>arr'. for_each order (write_cell g) (e, arr) = Inr (e, arr') \<and> shape21 arr' \<and>
           (\<forall>i<21. \<forall>j<21. arr' ! i ! j =
               (if (int i, int j) \<in> set order then f (int i, int j) else arr ! i ! j))"
  using assms
proof (induction order arbitrary: arr)
  case Nil
  then show ?case by simp
next
  case (Cons st order)
  obtain a b where st: "st = (a, b)" by (cases st)
  from Cons.prems have r: "0 \<le> a" "a \<le> 20" "0 \<le> b" "b \<le> 20" and g: "g e st = Inr (f st)"
    by (simp_all add: st in_range_def MAX_CARS_def)
  let ?arr1 = "arr[nat a := (arr ! nat a)[nat b := f st]]"
  have s1: "write_cell g st (e, arr) = Inr (e, ?arr1)"
    using nd_set_ok [OF Cons.prems(1) r] g by (simp add: write_cell_def st)
  have sh1: "shape21 ?arr1"
    using Cons.prems(1) r by (intro shape21_update) simp_all
  from Cons.IH [OF sh1] Cons.prems(2) obtain arr' where
    a': "for_each order (write_cell g) (e, ?arr1) = Inr (e, arr')" "shape21 arr'"
      "\<forall>i<21. \<forall>j<21. arr' ! i ! j =
          (if (int i, int j) \<in> set order then f (int i, int j) else ?arr1 ! i ! j)"
    by auto
  have cell: "\<And>i j. i < 21 \<Longrightarrow> j < 21 \<Longrightarrow>
      ?arr1 ! i ! j = (if (int i, int j) = st then f st else arr ! i ! j)"
  proof -
    fix i j :: nat assume ij: "i < 21" "j < 21"
    have la: "length arr = 21" and lr: "length (arr ! nat a) = 21"
      using Cons.prems(1) r by (simp_all add: shape21_def)
    show "?arr1 ! i ! j = (if (int i, int j) = st then f st else arr ! i ! j)"
    proof (cases "i = nat a")
      case True
      then show ?thesis using ij la lr r st
        by (cases "j = nat b") auto
    next
      case False
      then show ?thesis using ij la r st by auto
    qed
  qed
  show ?case
  proof (intro exI conjI allI impI)
    show "for_each (st # order) (write_cell g) (e, arr) = Inr (e, arr')"
      by (simp add: s1 a'(1))
    show "shape21 arr'" by (rule a'(2))
    fix i j :: nat assume ij: "i < 21" "j < 21"
    show "arr' ! i ! j =
        (if (int i, int j) \<in> set (st # order) then f (int i, int j) else arr ! i ! j)"
      using a'(3) ij cell [OF ij] by auto
  qed
qed

lemma write_all_cells:
  assumes "shape21 arr" "set order = set all_states" "\<forall>st\<in>set all_states. g e st = Inr (f st)"
  shows "for_each order (write_cell g) (e, arr) = Inr (e, nd_tabulate f)"
proof -
  have "\<forall>st\<in>set order. in_range st \<and> g e st = Inr (f st)"
    using assms(2,3) by (simp add: set_all_states)
  from write_cells [where g=g and e=e and f=f and order=order, OF assms(1) this] obtain arr' where
    a': "for_each order (write_cell g) (e, arr) = Inr (e, arr')" "shape21 arr'"
      "\<forall>i<21. \<forall>j<21. arr' ! i ! j =
          (if (int i, int j) \<in> set order then f (int i, int j) else arr ! i ! j)"
    by auto
  have "arr' = nd_tabulate f"
  proof (rule shape21_eqI [OF a'(2) shape21_tabulate])
    fix i j :: nat assume ij: "i < 21" "j < 21"
    then have "(int i, int j) \<in> set order"
      by (simp add: assms(2) set_all_states in_range_def MAX_CARS_def)
    then show "arr' ! i ! j = nd_tabulate f ! i ! j"
      using a'(3) ij by (simp add: nd_tabulate_nth)
  qed
  with a'(1) show ?thesis by simp
qed

subsection \<open>The greedy scan and the result of policy improvement\<close>

lemma policy_value_ok:
  assumes "wf_env e" "in_range st"
  shows "policy_value e st = Inr (bellman_sum e st (policy e ! nat (fst st) ! nat (snd st)))"
proof -
  have "nd_get (policy e) (fst st) (snd st) = Inr (policy e ! nat (fst st) ! nat (snd st))"
    using assms by (intro nd_get_ok) (simp_all add: wf_env_def in_range_def MAX_CARS_def)
  then show ?thesis
    by (simp add: policy_value_def bellman_expectation_ok [OF assms])
qed

lemma evaluation_order_result:
  assumes "wf_env e" "shape21 new_values" "set order = set all_states"
  shows "for_each order evaluation_body (e, new_values) =
     Inr (e, nd_tabulate (\<lambda>st. bellman_sum e st (policy e ! nat (fst st) ! nat (snd st))))"
  unfolding evaluation_body_write
  using assms policy_value_ok [OF assms(1)]
  by (intro write_all_cells) (simp_all add: set_all_states)

lemma evaluation_sweep_result:
  assumes "wf_env e" "shape21 new_values"
  shows "evaluation_sweep (e, new_values) =
     Inr (e, nd_tabulate (\<lambda>st. bellman_sum e st (policy e ! nat (fst st) ! nat (snd st))))"
  unfolding evaluation_sweep_states
  by (rule evaluation_order_result [OF assms]) simp

lemma improvement_actions_scan:
  assumes "\<forall>a\<in>set actions. bellman_expectation e st a = Inr (val a)"
  shows "for_each actions (improvement_action e st) s = Inr (greedy_scan val actions s)"
  using assms
proof (induction actions arbitrary: s)
  case Nil
  then show ?case by (simp add: greedy_scan_def)
next
  case (Cons a actions)
  obtain b bv where s: "s = (b, bv)" by (cases s)
  have "improvement_action e st a s
      = Inr (if exceeds (val a) bv then (a, Finite (val a)) else (b, bv))"
    using Cons.prems by (simp add: improvement_action_def s)
  moreover have "greedy_scan val (a # actions) s
      = greedy_scan val actions (if exceeds (val a) bv then (a, Finite (val a)) else (b, bv))"
    by (simp add: greedy_scan_def s)
  ultimately show ?case using Cons.IH Cons.prems by simp
qed

lemma greedy_scan_first:
  "greedy_scan val (a # actions) (b0, NegInf) = greedy_scan val actions (a, Finite (val a))"
  by (simp add: greedy_scan_def)

lemma greedy_scan_mem:
  "fst (greedy_scan val actions (b, bv)) \<in> insert b (set actions)"
proof (induction actions arbitrary: b bv)
  case Nil
  then show ?case by (simp add: greedy_scan_def)
next
  case (Cons a actions)
  have "greedy_scan val (a # actions) (b, bv)
      = greedy_scan val actions (if exceeds (val a) bv then (a, Finite (val a)) else (b, bv))"
    by (simp add: greedy_scan_def)
  then show ?case
    using Cons.IH [of a "Finite (val a)"] Cons.IH [of b bv] by (auto split: if_splits)
qed

lemma available_actions_nonempty:
  assumes "in_range st"
  shows "get_available_actions st = (- snd st) # [- snd st + 1 .. fst st]"
proof -
  have "get_available_actions st = [- snd st .. fst st]"
    using assms by (simp add: get_available_actions_def in_range_def MAX_CARS_def)
  moreover have "- snd st \<le> fst st"
    using assms by (simp add: in_range_def)
  ultimately show ?thesis by (simp add: upto_rec1)
qed

lemma greedy_scan_start:
  assumes "in_range st"
  shows "fst (greedy_scan val (get_available_actions st) (b0, NegInf))
       = fst (greedy_scan val (get_available_actions st) (0, NegInf))"
  unfolding available_actions_nonempty [OF assms] greedy_scan_first ..

lemma greedy_action_ok:
  assumes "wf_env e" "in_range st"
  shows "greedy_action e st = Inr (best_action_of e st)"
proof -
  have g: "nd_get (policy e) (fst st) (snd st) = Inr (policy e ! nat (fst st) ! nat (snd st))"
    using assms by (intro nd_get_ok) (simp_all add: wf_env_def in_range_def MAX_CARS_def)
  have "\<forall>a\<in>set (get_available_actions st). bellman_expectation e st a = Inr (bellman_sum e st a)"
    using bellman_expectation_ok [OF assms] by simp
  from improvement_actions_scan [OF this]
  have "for_each (get_available_actions st) (improvement_action e st)
          (policy e ! nat (fst st) ! nat (snd st), NegInf)
      = Inr (greedy_scan (bellman_sum e st) (get_available_actions st)
          (policy e ! nat (fst st) ! nat (snd st), NegInf))" .
  moreover obtain b bv where
    "greedy_scan (bellman_sum e st) (get_available_actions st)
          (policy e ! nat (fst st) ! nat (snd st), NegInf) = (b, bv)"
    by (cases "greedy_scan (bellman_sum e st) (get_available_actions st)
          (policy e ! nat (fst st) ! nat (snd st), NegInf)")
  ultimately show ?thesis
    unfolding greedy_action_def g best_action_of_def
    using greedy_scan_start [OF assms(2), of "bellman_sum e st" "policy e ! nat (fst st) ! nat (snd st)"]
    by simp
qed

lemma improvement_sweep_result:
  assumes "wf_env e" "shape21 new_policy"
  shows "improvement_sweep (e, new_policy) = Inr (e, nd_tabulate (best_action_of e))"
  unfolding improvement_sweep_states improvement_body_write
  using assms greedy_action_ok [OF assms(1)]
  by (intro write_all_cells) (simp_all add: set_all_states)

lemma policy_improvement_result:
  assumes "wf_env e"
  shows "policy_improvement e =
     Inr (e\<lparr>policy := nd_tabulate (best_action_of e)\<rparr>,
          nd_all_equal (nd_tabulate (best_action_of e)) (policy e))"
proof -
  have "shape21 (nd_empty_like (policy e) :: int ndarray)"
    using assms by (intro shape21_empty_like) (simp add: wf_env_def)
  from improvement_sweep_result [OF assms this] show ?thesis
    by (simp add: policy_improvement_def)
qed

lemma bellman_sum_policy: "bellman_sum (e\<lparr>policy := p\<rparr>) = bellman_sum e"
  by (intro ext) (simp add: bellman_sum_def prob_of_def reward_of_def value_of_def
      get_transition_probability_def get_reward_def cong: sum.case_cong)

lemma best_action_of_policy: "best_action_of (e\<lparr>policy := p\<rparr>) = best_action_of e"
  by (intro ext) (simp add: best_action_of_def bellman_sum_policy)

lemma wf_env_policy: "wf_env e \<Longrightarrow> shape21 p \<Longrightarrow> wf_env (e\<lparr>policy := p\<rparr>)"
  by (simp add: wf_env_def models_built_def)

lemma wf_env_values: "wf_env e \<Longrightarrow> shape21 v \<Longrightarrow> wf_env (e\<lparr>state_values := v\<rparr>)"
  by (simp add: wf_env_def models_built_def)

lemma nd_all_equal_iff: "nd_all_equal a b \<longleftrightarrow> a = b"
  by (simp add: nd_all_equal_def list.rel_eq)

lemma reset_wf: "\<exists>e. reset = Inr e \<and> wf_env e \<and> state_values e = nd_zeros (MAX_CARS + 1) (MAX_CARS + 1)
    \<and> policy e = nd_zeros (MAX_CARS + 1) (MAX_CARS + 1)"
  using reset_closed by (auto simp: wf_env_def models_built_def shape21_zeros)

lemma write_cell_env:
  "for_each order (write_cell g) (e, arr) = Inr (e1, arr1) \<Longrightarrow> e1 = e"
proof (induction order arbitrary: arr)
  case Nil
  then show ?case by simp
next
  case (Cons st order)
  then show ?case
    by (auto simp: write_cell_def split: sum.splits)
qed

subsection \<open>A sweep that never meets the threshold\<close>

lemma nd_max_abs_diff_ok:
  assumes "shape21 a" "shape21 b"
  shows "\<exists>delta. nd_max_abs_diff a b = Inr delta \<and> 0 \<le> delta"
proof -
  define ds where "ds = concat (map2 (map2 (\<lambda>x y. \<bar>x - y\<bar>)) a b)"
  have len: "map length a = map length b"
    using assms by (intro nth_equalityI) (simp_all add: shape21_def)
  have la: "length a = 21" "length b = 21" using assms by (simp_all add: shape21_def)
  have "a \<noteq> []" "b \<noteq> []" using la by auto
  then obtain r ra s sb where ab: "a = r # ra" "b = s # sb"
    by (cases a; cases b) auto
  have "length r = 21" "length s = 21" using assms ab by (simp_all add: shape21_def)
  then obtain x xs y ys where rs: "r = x # xs" "s = y # ys"
    by (cases r; cases s) auto
  have ne: "ds \<noteq> []" by (simp add: ds_def ab rs)
  have nonneg: "\<forall>d\<in>set ds. 0 \<le> d"
    by (auto simp: ds_def set_zip)
  obtain d where d: "d \<in> set ds" using ne by (cases ds) auto
  have "d \<le> Max (set ds)"
    by (rule Max_ge) (simp_all add: d)
  moreover have "0 \<le> d" using nonneg d by blast
  ultimately have "0 \<le> Max (set ds)" by linarith
  then show ?thesis
    using len ne by (simp add: nd_max_abs_diff_def Let_def ds_def)
qed

lemma policy_evaluation_loop_diverges:
  assumes "policy_evaluation_loop theta s = Some r"
  shows "\<not> (theta \<le> 0 \<and> wf_env (fst s) \<and> shape21 (snd s))"
proof (rule policy_evaluation_loop.raw_induct
    [where P = "\<lambda>theta s r. \<not> (theta \<le> 0 \<and> wf_env (fst s) \<and> shape21 (snd s))", OF _ assms],
    goal_cases)
  case (1 loop theta s r)
  show ?case
  proof
    assume h: "theta \<le> 0 \<and> wf_env (fst s) \<and> shape21 (snd s)"
    obtain e nv where s: "s = (e, nv)" by (cases s)
    define nv' where "nv' = nd_tabulate (\<lambda>st. bellman_sum e st (policy e ! nat (fst st) ! nat (snd st)))"
    have sh: "shape21 nv'" by (simp add: nv'_def shape21_tabulate)
    have sw: "evaluation_sweep s = Inr (e, nv')"
      using h evaluation_sweep_result [of e nv] by (simp add: s nv'_def)
    have "shape21 (state_values e)" using h by (simp add: s wf_env_def)
    from nd_max_abs_diff_ok [OF this sh]
    obtain delta where d: "nd_max_abs_diff (state_values e) nv' = Inr delta" "0 \<le> delta"
      by auto
    have nlt: "\<not> delta < theta" using d(2) h by simp
    have "loop theta (e\<lparr>state_values := nv'\<rparr>, nd_empty_like nv') = Some r"
      using 1(2) nlt by (simp add: sw d(1) Let_def)
    from 1(1) [OF this] h sh show False
      by (simp add: s wf_env_values shape21_empty_like)
  qed
qed

subsection \<open>Bounds on the truncated Poisson mass\<close>

lemma poisson_value_eq: "0 \<le> k \<Longrightarrow> poisson_value lam k = poisson_pmf lam k"
  by (simp add: poisson_value_def poisson_probability_def poisson_pmf_def Let_def)

lemma poisson_mass_pmf: "poisson_mass lam = (\<Sum>k\<leftarrow>[0..25]. poisson_pmf lam k)"
  unfolding poisson_mass_def model_range
  by (rule arg_cong [where f=sum_list], rule map_cong [OF refl]) (simp add: poisson_value_eq)

lemma sum_list_upto_nat:
  "(\<Sum>k\<leftarrow>[0..int n]. g (nat k)) = sum g {..n}"
proof (induction n)
  case 0
  then show ?case by (simp add: upto.simps)
next
  case (Suc n)
  have "[0..int (Suc n)] = [0..int n] @ [int (Suc n)]"
    using upto_rec2 [of 0 "int (Suc n)"] by simp
  moreover have "nat (int (Suc n)) = Suc n" by simp
  ultimately show ?case using Suc by (simp del: of_nat_Suc)
qed

lemma poisson_mass_eq:
  "poisson_mass lam = exp (- real_of_int lam) * (\<Sum>k<26. real_of_int lam ^ k / fact k)"
proof -
  have "poisson_mass lam = (\<Sum>k\<leftarrow>[0..int 25]. exp (- real_of_int lam) * (real_of_int lam ^ nat k / fact (nat k)))"
    by (simp add: poisson_mass_pmf poisson_pmf_def)
  also have "\<dots> = (\<Sum>k\<le>25. exp (- real_of_int lam) * (real_of_int lam ^ k / fact k))"
    by (rule sum_list_upto_nat)
  also have "{..25::nat} = {..<26}" by auto
  finally show ?thesis by (simp add: sum_distrib_left)
qed

lemma poisson_mass_bounds:
  assumes "0 < lam"
  shows "1 - real_of_int lam ^ 26 / fact 26 \<le> poisson_mass lam \<and> poisson_mass lam < 1
       \<and> 0 < poisson_mass lam"
proof -
  define x where "x = real_of_int lam"
  have x: "0 < x" using assms by (simp add: x_def)
  from Maclaurin_exp_lt [of x 26] x obtain t where
    t: "\<bar>t\<bar> < \<bar>x\<bar>" "exp x = (\<Sum>m<26. x ^ m / fact m) + (exp t / fact 26) * x ^ 26"
    by auto
  define S where "S = (\<Sum>m<26. x ^ m / fact m)"
  have tx: "t < x" using t(1) x by linarith
  have m: "poisson_mass lam = exp (- x) * S"
    by (simp add: poisson_mass_eq x_def S_def)
  have S: "S = exp x - exp t * (x ^ 26 / fact 26)"
    using t(2) by (simp add: S_def)
  have "exp (- x) * S = 1 - exp (t - x) * (x ^ 26 / fact 26)"
    unfolding S by (simp add: algebra_simps exp_minus exp_diff field_simps)
  then have eq: "poisson_mass lam = 1 - exp (t - x) * (x ^ 26 / fact 26)"
    using m by simp
  have p: "0 < x ^ 26 / fact 26" using x by simp
  have e1: "exp (t - x) \<le> 1" using tx by simp
  have "exp (t - x) * (x ^ 26 / fact 26) \<le> 1 * (x ^ 26 / fact 26)"
    by (rule mult_right_mono [OF e1]) (use p in simp)
  moreover have "0 < exp (t - x) * (x ^ 26 / fact 26)"
    by (rule mult_pos_pos [OF exp_gt_zero p])
  moreover have "0 < S"
  proof -
    have "(0::nat) \<in> {..<26}" by simp
    then have "{..<26::nat} \<noteq> {}" by blast
    then show ?thesis
      unfolding S_def by (intro sum_pos) (use x in simp_all)
  qed
  then have "0 < exp (- x) * S" by simp
  ultimately show ?thesis
    using eq m by (simp add: x_def)
qed

lemma tail_bound_2: "(2::real) ^ 26 / fact 26 < 1 / 10 ^ 7"
  by (simp add: fact_numeral)

lemma tail_bound_3: "(3::real) ^ 26 / fact 26 < 1 / 10 ^ 7"
  by (simp add: fact_numeral)

lemma tail_bound_4: "(4::real) ^ 26 / fact 26 < 1 / 10 ^ 7"
  by (simp add: fact_numeral)

subsection \<open>Row sums of the transition table\<close>

lemma sum_list_upto_set: "(\<Sum>k\<leftarrow>[a..b]. f k) = (\<Sum>k\<in>{a..b}. f k :: real)"
  by (simp add: sum_list_distinct_conv_sum_set)

lemma next_inventory_range: "0 \<le> next_inventory k j n \<and> next_inventory k j n \<le> 20"
  by (simp add: next_inventory_def MAX_CARS_def)

lemma row_sum_model_P:
  assumes "0 \<le> n" "n \<le> 25"
  shows "row_sum (model_P lr ld) n = poisson_mass lr * poisson_mass ld"
proof -
  let ?K = "{0..25::int}"
  have "row_sum (model_P lr ld) n =
      (\<Sum>n'\<in>{0..20}. \<Sum>k\<in>?K. \<Sum>j\<in>?K.
          if next_inventory k j n = n' then poisson_pmf lr k * poisson_pmf ld j else 0)"
    unfolding row_sum_def sum_list_upto_set MAX_CARS_def
    using assms by (intro sum.cong refl) (simp add: model_P_def sum_list_upto_set)
  also have "\<dots> = (\<Sum>k\<in>?K. \<Sum>j\<in>?K. \<Sum>n'\<in>{0..20}.
          if next_inventory k j n = n' then poisson_pmf lr k * poisson_pmf ld j else 0)"
  proof -
    have "(\<Sum>n'\<in>{0..20}. \<Sum>k\<in>?K. \<Sum>j\<in>?K.
          if next_inventory k j n = n' then poisson_pmf lr k * poisson_pmf ld j else 0)
      = (\<Sum>k\<in>?K. \<Sum>n'\<in>{0..20}. \<Sum>j\<in>?K.
          if next_inventory k j n = n' then poisson_pmf lr k * poisson_pmf ld j else 0)"
      by (rule sum.swap)
    also have "\<dots> = (\<Sum>k\<in>?K. \<Sum>j\<in>?K. \<Sum>n'\<in>{0..20}.
          if next_inventory k j n = n' then poisson_pmf lr k * poisson_pmf ld j else 0)"
      by (rule sum.cong [OF refl]) (rule sum.swap)
    finally show ?thesis .
  qed
  also have "\<dots> = (\<Sum>k\<in>?K. \<Sum>j\<in>?K. poisson_pmf lr k * poisson_pmf ld j)"
    using next_inventory_range by (intro sum.cong refl) (simp add: sum.delta')
  also have "\<dots> = (\<Sum>k\<in>?K. poisson_pmf lr k) * (\<Sum>j\<in>?K. poisson_pmf ld j)"
    by (simp add: sum_product)
  finally show ?thesis
    by (simp add: poisson_mass_pmf sum_list_upto_set)
qed

lemma mass_product_bounds:
  assumes "1 - 1 / 10 ^ 7 < (a::real)" "a < 1" "1 - 1 / 10 ^ 7 < b" "b < 1"
  shows "\<bar>a * b - 1\<bar> < 1 / 10 ^ 4"
proof -
  have a0: "0 < a" and b0: "0 < b" using assms by simp_all
  have "a * b < 1 * 1"
    using assms a0 b0 by (intro mult_strict_mono) simp_all
  moreover have "(1 - 1 / 10 ^ 7) * (1 - 1 / 10 ^ 7) < a * b"
    using assms by (intro mult_strict_mono) simp_all
  ultimately show ?thesis by simp
qed

lemma poisson_mass_close:
  assumes "lam = 2 \<or> lam = 3 \<or> lam = 4"
  shows "1 - 1 / 10 ^ 7 < poisson_mass lam \<and> poisson_mass lam < 1"
proof -
  from assms consider "lam = 2" | "lam = 3" | "lam = 4" by blast
  then have tail: "real_of_int lam ^ 26 / fact 26 < 1 / 10 ^ 7"
  proof cases
    case 1
    show ?thesis unfolding 1 of_int_numeral by (rule tail_bound_2)
  next
    case 2
    show ?thesis unfolding 2 of_int_numeral by (rule tail_bound_3)
  next
    case 3
    show ?thesis unfolding 3 of_int_numeral by (rule tail_bound_4)
  qed
  have "0 < lam" using assms by auto
  from poisson_mass_bounds [OF this]
  have "1 - real_of_int lam ^ 26 / fact 26 \<le> poisson_mass lam" "poisson_mass lam < 1"
    by simp_all
  with tail show ?thesis by linarith
qed

lemma poisson_mass_error:
  assumes "lam = 2 \<or> lam = 3 \<or> lam = 4"
  shows "\<bar>poisson_mass lam - 1\<bar> < 1 / 10 ^ 6"
proof -
  have "1 - 1 / 10 ^ 7 < poisson_mass lam" "poisson_mass lam < 1"
    using poisson_mass_close [OF assms] by simp_all
  moreover have "(1::real) / 10 ^ 7 < 1 / 10 ^ 6" by simp
  ultimately show ?thesis by linarith
qed

lemma row_sum_error:
  assumes "0 \<le> n" "n \<le> 25" "a = 2 \<or> a = 3 \<or> a = 4" "b = 2 \<or> b = 3 \<or> b = 4"
  shows "\<bar>row_sum (model_P a b) n - 1\<bar> < 1 / 10 ^ 4"
  unfolding row_sum_model_P [OF assms(1,2)]
  using poisson_mass_close [OF assms(3)] poisson_mass_close [OF assms(4)]
  by (intro mass_product_bounds) simp_all

subsection \<open>The weight of the immediate reward\<close>

lemma prob_of_product:
  "prob_of e (m1, m2) (n1, n2) =
     (case probs_1 e (m1, n1) of None \<Rightarrow> 0 | Some p \<Rightarrow> p)
   * (case probs_2 e (m2, n2) of None \<Rightarrow> 0 | Some p \<Rightarrow> p)"
  by (simp add: prob_of_def get_transition_probability_def dict_get_def split: option.splits)

lemma sum_prob_of:
  "(\<Sum>n1\<leftarrow>[0..MAX_CARS]. \<Sum>n2\<leftarrow>[0..MAX_CARS]. prob_of e (m1, m2) (n1, n2))
     = row_sum (probs_1 e) m1 * row_sum (probs_2 e) m2"
  unfolding prob_of_product row_sum_def sum_list_upto_set
  by (simp add: sum_product)

lemma bellman_sum_split:
  "bellman_sum e st a =
     - real_of_int (CAR_MOVE_COST * \<bar>get_valid_action st a\<bar>)
     + row_sum (probs_1 e) (fst (morning st a)) * row_sum (probs_2 e) (snd (morning st a))
         * reward_of e (morning st a)
     + (\<Sum>n1\<leftarrow>[0..MAX_CARS]. \<Sum>n2\<leftarrow>[0..MAX_CARS].
          prob_of e (morning st a) (n1, n2) * (DISCOUNT * value_of e (n1, n2)))"
proof -
  obtain m1 m2 where m: "morning st a = (m1, m2)" by (cases "morning st a")
  have "(\<Sum>n1\<leftarrow>[0..MAX_CARS]. \<Sum>n2\<leftarrow>[0..MAX_CARS].
          prob_of e (m1, m2) (n1, n2) * (reward_of e (m1, m2) + DISCOUNT * value_of e (n1, n2)))
     = (\<Sum>n1\<leftarrow>[0..MAX_CARS]. \<Sum>n2\<leftarrow>[0..MAX_CARS]. prob_of e (m1, m2) (n1, n2)) * reward_of e (m1, m2)
     + (\<Sum>n1\<leftarrow>[0..MAX_CARS]. \<Sum>n2\<leftarrow>[0..MAX_CARS].
          prob_of e (m1, m2) (n1, n2) * (DISCOUNT * value_of e (n1, n2)))"
    unfolding sum_list_upto_set
    by (simp add: sum_distrib_right sum.distrib [symmetric] distrib_left)
  then show ?thesis
    by (simp add: bellman_sum_def m sum_prob_of)
qed

lemma total_mass_rows:
  assumes "models_built e" "0 \<le> m1" "m1 \<le> 25" "0 \<le> m2" "m2 \<le> 25"
  shows "row_sum (probs_1 e) m1 * row_sum (probs_2 e) m2 = total_mass"
  using assms by (simp add: models_built_def row_sum_model_P total_mass_def)

lemma total_mass_bounds: "0 < total_mass \<and> total_mass < 1"
proof -
  have a: "0 < poisson_mass 3" "poisson_mass 3 < 1" "0 < poisson_mass 4" "poisson_mass 4 < 1"
    "0 < poisson_mass 2" "poisson_mass 2 < 1"
    using poisson_mass_bounds [of 3] poisson_mass_bounds [of 4] poisson_mass_bounds [of 2]
    by simp_all
  have b: "0 < poisson_mass 3 * poisson_mass 3" "poisson_mass 3 * poisson_mass 3 < 1 * 1"
    using a by (simp, intro mult_strict_mono) simp_all
  have c: "0 < poisson_mass 4 * poisson_mass 2" "poisson_mass 4 * poisson_mass 2 < 1 * 1"
    using a by (simp, intro mult_strict_mono) simp_all
  have "poisson_mass 3 * poisson_mass 3 * (poisson_mass 4 * poisson_mass 2) < 1 * 1"
    using b c by (intro mult_strict_mono) simp_all
  moreover have "0 < poisson_mass 3 * poisson_mass 3 * (poisson_mass 4 * poisson_mass 2)"
    using b(1) c(1) by (rule mult_pos_pos)
  ultimately show ?thesis
    by (simp add: total_mass_def consts_defs)
qed

lemma bellman_expectation_weights:
  assumes "wf_env e" "in_range st"
  shows "bellman_expectation e st a =
           Inr (- real_of_int (CAR_MOVE_COST * \<bar>get_valid_action st a\<bar>)
                + total_mass * reward_of e (morning st a)
                + (\<Sum>n1\<leftarrow>[0..MAX_CARS]. \<Sum>n2\<leftarrow>[0..MAX_CARS].
                     prob_of e (morning st a) (n1, n2) * (DISCOUNT * value_of e (n1, n2))))
       \<and> bellman_expectation e st a = Inr (bellman_spec e st a - (1 - total_mass) * reward_of e (morning st a))
       \<and> total_mass < 1"
proof -
  have mb: "models_built e" using assms(1) by (simp add: wf_env_def)
  have "row_sum (probs_1 e) (fst (morning st a)) * row_sum (probs_2 e) (snd (morning st a)) = total_mass"
    using morning_bounds [OF assms(2), of a] by (intro total_mass_rows [OF mb]) simp_all
  then have "bellman_sum e st a = - real_of_int (CAR_MOVE_COST * \<bar>get_valid_action st a\<bar>)
                + total_mass * reward_of e (morning st a)
                + (\<Sum>n1\<leftarrow>[0..MAX_CARS]. \<Sum>n2\<leftarrow>[0..MAX_CARS].
                     prob_of e (morning st a) (n1, n2) * (DISCOUNT * value_of e (n1, n2)))"
    using bellman_sum_split [of e st a] by simp
  then show ?thesis
    using bellman_expectation_ok [OF assms, of a] total_mass_bounds
    by (simp add: bellman_spec_def algebra_simps)
qed

subsection \<open>Rewards are positive\<close>

lemma poisson_pmf_pos: "0 < lam \<Longrightarrow> 0 < poisson_pmf lam k"
  by (simp add: poisson_pmf_def)

lemma poisson_pmf_nonneg: "0 \<le> lam \<Longrightarrow> 0 \<le> poisson_pmf lam k"
  by (simp add: poisson_pmf_def)

lemma model_R_value:
  "0 \<le> n \<Longrightarrow> n \<le> 25 \<Longrightarrow>
     model_R lam n = Some (\<Sum>k\<in>{0..25}. 10 * poisson_pmf lam k * real_of_int (min k n))"
  by (simp add: model_R_def sum_list_upto_set)

lemma model_R_zero: "model_R lam 0 = Some 0"
proof -
  have "(\<Sum>k\<in>{0..25::int}. 10 * poisson_pmf lam k * real_of_int (min k 0)) = 0"
    by (rule sum.neutral) (simp add: min_def)
  then show ?thesis by (simp add: model_R_value)
qed

lemma model_R_pos:
  assumes "1 \<le> n" "n \<le> 25" "0 < lam"
  shows "\<exists>r. model_R lam n = Some r \<and> 0 < r"
proof -
  have "0 < (\<Sum>k\<in>{0..25::int}. 10 * poisson_pmf lam k * real_of_int (min k n))"
  proof (rule sum_pos2 [where i = 1])
    show "0 < 10 * poisson_pmf lam 1 * real_of_int (min 1 n)"
      using assms poisson_pmf_pos [OF assms(3), of 1] by (simp add: min_def)
  next
    fix k :: int assume "k \<in> {0..25}"
    then show "0 \<le> 10 * poisson_pmf lam k * real_of_int (min k n)"
      using assms poisson_pmf_pos [OF assms(3), of k] by (simp add: min_def)
  qed simp_all
  with assms show ?thesis by (simp add: model_R_value)
qed

lemma value_of_zeros:
  assumes "state_values e = nd_zeros (MAX_CARS + 1) (MAX_CARS + 1)"
  shows "value_of e st = 0"
proof (cases "nd_get (state_values e) (fst st) (snd st)")
  case (Inl err)
  then show ?thesis by (simp add: value_of_def)
next
  case (Inr v)
  then have "v = 0"
    unfolding assms nd_get_def nd_index_def nd_zeros_def
    by (auto simp: MAX_CARS_def split: if_splits)
  with Inr show ?thesis by (simp add: value_of_def)
qed

lemma reward_of_1_0:
  assumes "models_built e"
  shows "0 < reward_of e (1, 0)"
proof -
  from model_R_pos [of 1 3] obtain r where r: "model_R 3 1 = Some r" "0 < r" by auto
  have "rewards_1 e 1 = Some r" "rewards_2 e 0 = Some 0"
    using assms r(1) model_R_zero [of 4] by (simp_all add: models_built_def consts_defs)
  then show ?thesis using r(2)
    by (simp add: reward_of_def get_reward_def dict_get_def)
qed

subsection \<open>Lookups outside the domain of the models\<close>

lemma get_reward_cases:
  assumes "models_built e"
  shows "get_reward e st =
     (if in_model_domain st then Inr (reward_of e st) else Inl KeyError)"
proof (cases "in_model_domain st")
  case True
  then show ?thesis
    using get_reward_ok [OF assms, of "fst st" "snd st"]
    by (simp add: in_model_domain_def MAX_CARS_def MAX_MOVE_def)
next
  case False
  then have "rewards_1 e (fst st) = None \<or> rewards_2 e (snd st) = None"
    using assms model_R_none_iff [of REQUEST_1_LAMBDA "fst st"]
      model_R_none_iff [of REQUEST_2_LAMBDA "snd st"]
    by (auto simp: models_built_def in_model_domain_def MAX_CARS_def MAX_MOVE_def)
  then show ?thesis using False
    by (auto simp: get_reward_def dict_get_def split: option.splits)
qed

lemma step_cases:
  assumes "models_built e"
  shows "step e st a =
     (if in_model_domain (fst st - a, snd st + a)
      then Inr ((fst st - a, snd st + a), reward_of e (fst st - a, snd st + a))
      else Inl KeyError)"
  by (simp add: step_def Let_def get_reward_cases [OF assms])

lemma get_transition_probability_cases:
  assumes "models_built e"
  shows "get_transition_probability e st new_state =
     (if in_model_domain st \<and> in_range new_state then Inr (prob_of e st new_state)
      else Inl KeyError)"
proof (cases "in_model_domain st \<and> in_range new_state")
  case True
  then show ?thesis
    using get_transition_probability_ok [OF assms, of "fst st" "snd st" "fst new_state" "snd new_state"]
    by (simp add: in_model_domain_def in_range_def MAX_CARS_def MAX_MOVE_def)
next
  case False
  then have "probs_1 e (fst st, fst new_state) = None \<or> probs_2 e (snd st, snd new_state) = None"
    using assms model_P_none_iff [of REQUEST_1_LAMBDA DROPOFF_1_LAMBDA "fst st" "fst new_state"]
      model_P_none_iff [of REQUEST_2_LAMBDA DROPOFF_B_LAMBDA "snd st" "snd new_state"]
    by (auto simp: models_built_def in_model_domain_def in_range_def MAX_CARS_def MAX_MOVE_def)
  then show ?thesis using False
    by (auto simp: get_transition_probability_def dict_get_def split: option.splits)
qed

lemma bellman_expectation_cases:
  assumes "models_built e" "shape21 (state_values e)"
  shows "bellman_expectation e st a =
     (if in_model_domain (morning st a) then Inr (bellman_sum e st a) else Inl KeyError)"
proof (cases "in_model_domain (morning st a)")
  case True
  then show ?thesis
    using bellman_expectation_morning [OF assms, of st a]
    by (simp add: in_model_domain_def MAX_CARS_def MAX_MOVE_def)
next
  case False
  then have "step e st (get_valid_action st a) = Inl KeyError"
    by (simp add: step_cases [OF assms(1)] morning_def)
  then show ?thesis using False
    by (simp add: bellman_expectation_def Let_def)
qed

subsection \<open>The value table that favours moving five cars\<close>

lemma shape21_bad_values: "shape21 bad_values"
  by (auto simp: shape21_def bad_values_def)

lemma bad_values_nth:
  "i < 21 \<Longrightarrow> j < 21 \<Longrightarrow> bad_values ! i ! j = (if i = 0 then - 1000000 else 0)"
  by (cases i) (simp_all add: bad_values_def)

lemma value_of_bad:
  assumes "state_values e = bad_values" "0 \<le> n1" "n1 \<le> 20" "0 \<le> n2" "n2 \<le> 20"
  shows "value_of e (n1, n2) = (if n1 = 0 then - 1000000 else 0)"
proof -
  have "nd_get bad_values n1 n2 = Inr (bad_values ! nat n1 ! nat n2)"
    by (rule nd_get_ok [OF shape21_bad_values assms(2-5)])
  moreover have "bad_values ! nat n1 ! nat n2 = (if n1 = 0 then - 1000000 else 0)"
    using assms(2-5) by (simp add: bad_values_nth)
  ultimately show ?thesis by (simp add: value_of_def assms(1))
qed

lemma greedy_scan_keep:
  "(\<And>a. a \<in> set actions \<Longrightarrow> val a \<le> v) \<Longrightarrow>
     greedy_scan val actions (b, Finite v) = (b, Finite v)"
proof (induction actions)
  case Nil
  then show ?case by (simp add: greedy_scan_def)
next
  case (Cons a actions)
  have "greedy_scan val (a # actions) (b, Finite v)
      = greedy_scan val actions (if exceeds (val a) (Finite v) then (a, Finite (val a)) else (b, Finite v))"
    by (simp add: greedy_scan_def)
  moreover have "\<not> exceeds (val a) (Finite v)"
    using Cons.prems [of a] by simp
  ultimately show ?case using Cons by simp
qed

lemma bellman_sum_clamped:
  "get_valid_action st a = get_valid_action st b \<Longrightarrow> bellman_sum e st a = bellman_sum e st b"
  by (simp add: bellman_sum_def morning_def)

lemma exp_minus3_lower: "1 / 27 \<le> exp (- 3 :: real)"
proof -
  have "exp (3::real) = exp 1 * exp 1 * exp 1"
    by (simp add: exp_add [symmetric])
  also have "\<dots> \<le> 3 * 3 * 3"
    using exp_le by (intro mult_mono) simp_all
  finally have "exp (3::real) \<le> 27" by simp
  then have "1 / 27 \<le> 1 / exp (3::real)"
    by (intro divide_left_mono) simp_all
  then show ?thesis by (simp add: exp_minus inverse_eq_divide)
qed

lemma pmf_3_0: "poisson_pmf 3 0 = exp (- 3)"
  by (simp add: poisson_pmf_def)

lemma pmf_3_4: "poisson_pmf 3 4 = exp (- 3) * (81 / 24)"
proof -
  have "nat 4 = 4" by simp
  then show ?thesis
    by (simp add: poisson_pmf_def fact_numeral)
qed

lemma pmf_product_lower: "1 / 216 \<le> poisson_pmf 3 0 * poisson_pmf 3 4"
proof -
  have "(1 / 27) * ((1 / 27) * (81 / 24)) \<le> exp (- 3 :: real) * (exp (- 3) * (81 / 24))"
    using exp_minus3_lower by (intro mult_mono) simp_all
  then show ?thesis by (simp add: pmf_3_0 pmf_3_4)
qed

subsection \<open>The first column of the transition table\<close>

lemma next_inventory_zero_iff:
  assumes "0 \<le> k" "0 \<le> j" "0 \<le> m"
  shows "next_inventory k j m = 0 \<longleftrightarrow> j = 0 \<and> m \<le> k"
  using assms by (auto simp: next_inventory_def MAX_CARS_def min_def max_def)

lemma model_P_zero_column:
  assumes "0 \<le> m" "m \<le> 25"
  shows "model_P lr ld (m, 0) =
     Some (poisson_pmf ld 0 * (\<Sum>k\<in>{0..25}. if m \<le> k then poisson_pmf lr k else 0))"
proof -
  have "(\<Sum>k\<in>{0..25::int}. \<Sum>j\<in>{0..25::int}.
          if next_inventory k j m = 0 then poisson_pmf lr k * poisson_pmf ld j else 0)
      = (\<Sum>k\<in>{0..25::int}. \<Sum>j\<in>{0..25::int}.
          if j = 0 then (if m \<le> k then poisson_pmf lr k * poisson_pmf ld 0 else 0) else 0)"
    using assms(1) by (intro sum.cong refl) (auto simp: next_inventory_zero_iff)
  also have "\<dots> = (\<Sum>k\<in>{0..25::int}. if m \<le> k then poisson_pmf lr k * poisson_pmf ld 0 else 0)"
    by (simp add: sum.delta)
  also have "\<dots> = poisson_pmf ld 0 * (\<Sum>k\<in>{0..25}. if m \<le> k then poisson_pmf lr k else 0)"
    by (simp add: sum_distrib_left if_distrib mult.commute cong: if_cong)
  finally show ?thesis
    using assms by (simp add: model_P_def sum_list_upto_set)
qed

lemma zero_column_gap:
  assumes "0 \<le> m" "m \<le> 4" "0 \<le> lr"
  shows "(\<Sum>k\<in>{0..25}. if 5 \<le> k then poisson_pmf lr k else 0) + poisson_pmf lr 4
       \<le> (\<Sum>k\<in>{0..25}. if m \<le> k then poisson_pmf lr k else 0)"
proof -
  have "(\<Sum>k\<in>{0..25}. if 5 \<le> k then poisson_pmf lr k else 0) + poisson_pmf lr 4
      = (\<Sum>k\<in>{0..25}. (if 5 \<le> k then poisson_pmf lr k else 0) + (if k = 4 then poisson_pmf lr 4 else 0))"
    by (simp add: sum.distrib sum.delta)
  also have "\<dots> \<le> (\<Sum>k\<in>{0..25}. if m \<le> k then poisson_pmf lr k else 0)"
    using assms poisson_pmf_nonneg [OF assms(3)] by (intro sum_mono) auto
  finally show ?thesis .
qed

lemma model_R_bounds:
  assumes "0 \<le> n" "n \<le> 25" "lam = 2 \<or> lam = 3 \<or> lam = 4"
  shows "\<exists>r. model_R lam n = Some r \<and> 0 \<le> r \<and> r \<le> 10 * real_of_int n"
proof -
  have l: "0 \<le> lam" using assms(3) by auto
  let ?r = "\<Sum>k\<in>{0..25}. 10 * poisson_pmf lam k * real_of_int (min k n)"
  have "0 \<le> ?r"
    using assms(1) poisson_pmf_nonneg [OF l] by (intro sum_nonneg) (simp add: min_def)
  moreover have "?r \<le> (\<Sum>k\<in>{0..25}. poisson_pmf lam k * (10 * real_of_int n))"
  proof (rule sum_mono)
    fix k :: int assume "k \<in> {0..25}"
    have "real_of_int (min k n) \<le> real_of_int n" by simp
    then have "poisson_pmf lam k * (10 * real_of_int (min k n)) \<le> poisson_pmf lam k * (10 * real_of_int n)"
      using poisson_pmf_nonneg [OF l, of k] by (intro mult_left_mono) simp_all
    then show "10 * poisson_pmf lam k * real_of_int (min k n) \<le> poisson_pmf lam k * (10 * real_of_int n)"
      by (simp add: mult_ac)
  qed
  moreover have "(\<Sum>k\<in>{0..25}. poisson_pmf lam k * (10 * real_of_int n)) = poisson_mass lam * (10 * real_of_int n)"
    by (simp add: poisson_mass_pmf sum_list_upto_set sum_distrib_right)
  moreover have "poisson_mass lam * (10 * real_of_int n) \<le> 1 * (10 * real_of_int n)"
    using poisson_mass_close [OF assms(3)] assms(1) by (intro mult_right_mono) simp_all
  ultimately show ?thesis
    using assms(1,2) by (simp add: model_R_value)
qed

lemma reward_of_bounds:
  assumes "models_built e" "0 \<le> m1" "m1 \<le> 25" "0 \<le> m2" "m2 \<le> 25"
  shows "0 \<le> reward_of e (m1, m2) \<and> reward_of e (m1, m2) \<le> 10 * real_of_int (m1 + m2)"
proof -
  from model_R_bounds [OF assms(2,3), of 3] obtain r1 where
    r1: "model_R 3 m1 = Some r1" "0 \<le> r1" "r1 \<le> 10 * real_of_int m1" by auto
  from model_R_bounds [OF assms(4,5), of 4] obtain r2 where
    r2: "model_R 4 m2 = Some r2" "0 \<le> r2" "r2 \<le> 10 * real_of_int m2" by auto
  have "reward_of e (m1, m2) = r1 + r2"
    using assms(1) r1(1) r2(1)
    by (simp add: reward_of_def get_reward_def dict_get_def models_built_def consts_defs)
  with r1 r2 show ?thesis by simp
qed

subsection \<open>Comparing the actions at the state (0, 6)\<close>

lemma lookup_probs_1_zero:
  assumes "models_built e" "0 \<le> m" "m \<le> 25"
  shows "(case probs_1 e (m, 0) of None \<Rightarrow> 0 | Some p \<Rightarrow> p) =
     poisson_pmf 3 0 * (\<Sum>k\<in>{0..25}. if m \<le> k then poisson_pmf 3 k else 0)"
  using assms by (simp add: models_built_def consts_defs model_P_zero_column)

lemma future_bad_values:
  assumes "models_built e" "state_values e = bad_values"
    "0 \<le> m1" "m1 \<le> 25" "0 \<le> m2" "m2 \<le> 25"
  shows "(\<Sum>n1\<leftarrow>[0..MAX_CARS]. \<Sum>n2\<leftarrow>[0..MAX_CARS].
            prob_of e (m1, m2) (n1, n2) * (DISCOUNT * value_of e (n1, n2)))
       = - (900000 * (poisson_mass 4 * poisson_mass 2) * poisson_pmf 3 0
            * (\<Sum>k\<in>{0..25}. if m1 \<le> k then poisson_pmf 3 k else 0))"
proof -
  define z where "z = (case probs_1 e (m1, 0) of None \<Rightarrow> 0 | Some p \<Rightarrow> p)"
  have "(\<Sum>n1\<in>{0..20::int}. \<Sum>n2\<in>{0..20::int}.
            prob_of e (m1, m2) (n1, n2) * (DISCOUNT * value_of e (n1, n2)))
      = (\<Sum>n1\<in>{0..20::int}. if n1 = 0 then (\<Sum>n2\<in>{0..20::int}.
            prob_of e (m1, m2) (0, n2) * (DISCOUNT * (- 1000000))) else 0)"
    by (intro sum.cong refl) (simp add: value_of_bad [OF assms(2)])
  also have "\<dots> = (\<Sum>n2\<in>{0..20::int}. prob_of e (m1, m2) (0, n2) * (DISCOUNT * (- 1000000)))"
    by (simp add: sum.delta)
  also have "\<dots> = z * row_sum (probs_2 e) m2 * (- 900000)"
    unfolding prob_of_product row_sum_def sum_list_upto_set z_def MAX_CARS_def
    by (simp add: sum_distrib_left sum_distrib_right DISCOUNT_def mult_ac)
  also have "row_sum (probs_2 e) m2 = poisson_mass 4 * poisson_mass 2"
    using assms by (simp add: models_built_def consts_defs row_sum_model_P)
  also have "z = poisson_pmf 3 0 * (\<Sum>k\<in>{0..25}. if m1 \<le> k then poisson_pmf 3 k else 0)"
    unfolding z_def by (rule lookup_probs_1_zero [OF assms(1,3,4)])
  finally show ?thesis
    by (simp add: sum_list_upto_set MAX_CARS_def mult_ac)
qed

lemma mass_4_2_lower: "1 / 2 \<le> poisson_mass 4 * poisson_mass 2"
proof -
  have a: "1 - 1 / 10 ^ 7 < poisson_mass 4" "1 - 1 / 10 ^ 7 < poisson_mass 2"
    using poisson_mass_close [of 4] poisson_mass_close [of 2] by simp_all
  have "(1 - 1 / 10 ^ 7) * (1 - 1 / 10 ^ 7) \<le> poisson_mass 4 * poisson_mass 2"
    using a by (intro mult_mono) simp_all
  then show ?thesis by simp
qed

text \<open>At the state \<open>(0, 6)\<close> the clamped action \<open>-5\<close> is at least as good as \<open>-4 .. 0\<close>.\<close>

lemma bad_values_prefers_minus_5:
  assumes wf: "wf_env e" and sv: "state_values e = bad_values" and a: "- 4 \<le> a" "a \<le> 0"
  shows "bellman_sum e (0, 6) a \<le> bellman_sum e (0, 6) (- 5)"
proof -
  have mb: "models_built e" using wf by (simp add: wf_env_def)
  define G where "G = (\<lambda>m::int. \<Sum>k\<in>{0..25}. if m \<le> k then poisson_pmf 3 k else 0)"
  define A where "A = 900000 * (poisson_mass 4 * poisson_mass 2)"
  have va: "get_valid_action (0, 6) a = a" "get_valid_action (0, 6) (- 5) = - 5"
    using a by (simp_all add: get_valid_action_def MAX_MOVE_def)
  have ma: "morning (0, 6) a = (- a, 6 + a)" "morning (0, 6) (- 5) = (5, 1)"
    by (simp_all add: morning_def va)
  have tm: "row_sum (probs_1 e) (- a) * row_sum (probs_2 e) (6 + a) = total_mass"
    "row_sum (probs_1 e) 5 * row_sum (probs_2 e) 1 = total_mass"
    using a by (simp_all add: total_mass_rows [OF mb])
  have fa: "(\<Sum>n1\<leftarrow>[0..MAX_CARS]. \<Sum>n2\<leftarrow>[0..MAX_CARS].
            prob_of e (- a, 6 + a) (n1, n2) * (DISCOUNT * value_of e (n1, n2)))
       = - (A * poisson_pmf 3 0 * G (- a))"
    unfolding A_def G_def using a by (intro future_bad_values [OF mb sv]) simp_all
  have f5: "(\<Sum>n1\<leftarrow>[0..MAX_CARS]. \<Sum>n2\<leftarrow>[0..MAX_CARS].
            prob_of e (5, 1) (n1, n2) * (DISCOUNT * value_of e (n1, n2)))
       = - (A * poisson_pmf 3 0 * G 5)"
    unfolding A_def G_def by (intro future_bad_values [OF mb sv]) simp_all
  have ba: "bellman_sum e (0, 6) a
      = - real_of_int (2 * \<bar>a\<bar>) + total_mass * reward_of e (- a, 6 + a) - A * poisson_pmf 3 0 * G (- a)"
    using bellman_sum_split [of e "(0, 6)" a] by (simp add: va ma tm fa CAR_MOVE_COST_def)
  have b5: "bellman_sum e (0, 6) (- 5)
      = - 10 + total_mass * reward_of e (5, 1) - A * poisson_pmf 3 0 * G 5"
    using bellman_sum_split [of e "(0, 6)" "- 5"] by (simp add: va ma tm f5 CAR_MOVE_COST_def)
  have ra: "0 \<le> reward_of e (- a, 6 + a)" "reward_of e (- a, 6 + a) \<le> 60"
    using reward_of_bounds [OF mb, of "- a" "6 + a"] a by simp_all
  have r5: "0 \<le> reward_of e (5, 1)"
    using reward_of_bounds [OF mb, of 5 1] by simp
  have t: "0 < total_mass" "total_mass < 1" using total_mass_bounds by simp_all
  have ta: "total_mass * reward_of e (- a, 6 + a) \<le> 1 * 60"
    using t ra by (intro mult_mono) simp_all
  have t5: "0 \<le> total_mass * reward_of e (5, 1)"
    using t r5 by simp
  have A: "450000 \<le> A"
    unfolding A_def using mass_4_2_lower by (simp add: mult_ac)
  have gap: "G 5 + poisson_pmf 3 4 \<le> G (- a)"
    unfolding G_def using a by (intro zero_column_gap) simp_all
  have p0: "0 \<le> poisson_pmf 3 0" by (rule poisson_pmf_nonneg) simp
  have Ap: "0 \<le> A * poisson_pmf 3 0" using A p0 by simp
  have "A * poisson_pmf 3 0 * (G 5 + poisson_pmf 3 4) \<le> A * poisson_pmf 3 0 * G (- a)"
    by (rule mult_left_mono [OF gap Ap])
  moreover have "450000 * (1 / 216) \<le> A * (poisson_pmf 3 0 * poisson_pmf 3 4)"
    using A pmf_product_lower by (intro mult_mono) simp_all
  ultimately have "A * poisson_pmf 3 0 * G 5 + 2000 \<le> A * poisson_pmf 3 0 * G (- a)"
    by (simp add: algebra_simps)
  with ta t5 show ?thesis
    unfolding ba b5 by simp
qed

subsection \<open>The action stored at the state (0, 6)\<close>

lemma best_action_bad_values:
  assumes wf: "wf_env e" and sv: "state_values e = bad_values"
  shows "best_action_of e (0, 6) = - 6"
proof -
  define val where "val = bellman_sum e (0, 6)"
  have r: "in_range (0, 6)" by (simp add: in_range_def MAX_CARS_def)
  have acts: "get_available_actions (0, 6) = (- 6) # [- 5 .. 0]"
    using available_actions_nonempty [OF r] by simp
  have v6: "val (- 6) = val (- 5)"
    unfolding val_def
    by (rule bellman_sum_clamped) (simp add: get_valid_action_def MAX_MOVE_def)
  have le: "\<And>a. a \<in> set [- 5 .. 0] \<Longrightarrow> val a \<le> val (- 6)"
  proof -
    fix a :: int assume "a \<in> set [- 5 .. 0]"
    then have "a = - 5 \<or> (- 4 \<le> a \<and> a \<le> 0)" by auto
    then show "val a \<le> val (- 6)"
    proof
      assume "a = - 5"
      then show ?thesis by (simp add: v6)
    next
      assume "- 4 \<le> a \<and> a \<le> 0"
      then show ?thesis
        unfolding v6 unfolding val_def
        using bad_values_prefers_minus_5 [OF wf sv, of a] by simp
    qed
  qed
  have "greedy_scan val (get_available_actions (0, 6)) (0, NegInf)
      = greedy_scan val [- 5 .. 0] (- 6, Finite (val (- 6)))"
    unfolding acts by (rule greedy_scan_first)
  also have "\<dots> = (- 6, Finite (val (- 6)))"
    by (rule greedy_scan_keep) (rule le)
  finally show ?thesis
    by (simp add: best_action_of_def val_def)
qed

text \<open>Every action an improvement sweep stores is an available action of its state.\<close>

lemma best_action_available:
  assumes "in_range st"
  shows "best_action_of e st \<in> set (get_available_actions st)"
proof -
  have "greedy_scan (bellman_sum e st) (get_available_actions st) (0, NegInf)
      = greedy_scan (bellman_sum e st) [- snd st + 1 .. fst st]
          (- snd st, Finite (bellman_sum e st (- snd st)))"
    unfolding available_actions_nonempty [OF assms] by (rule greedy_scan_first)
  then show ?thesis
    unfolding best_action_of_def available_actions_nonempty [OF assms]
    using greedy_scan_mem [of "bellman_sum e st" "[- snd st + 1 .. fst st]" "- snd st"
        "Finite (bellman_sum e st (- snd st))"]
    by simp
qed

section \<open>Properties\<close>

subsection \<open>Feasible actions\<close>

text \<open>
  Claim C2. \<open>get_available_actions\<close> is claimed to return only actions of magnitude at most
  \<open>MAX_MOVE\<close>. At the state \<open>(10, 10)\<close> the function returns the twenty-one integers from
  \<open>-10\<close> to \<open>10\<close>: the bounds are clipped with \<open>MAX_CARS\<close>, not with \<open>MAX_MOVE\<close>, so the
  action \<open>6\<close> is returned although it exceeds \<open>MAX_MOVE\<close>.
\<close>

theorem get_available_actions_exceeds_max_move:
  "get_available_actions (10, 10) =
     [-10, -9, -8, -7, -6, -5, -4, -3, -2, -1, 0, 1, 2, 3, 4, 5, 6, 7, 8, 9, 10]
   \<and> 6 \<in> set (get_available_actions (10, 10)) \<and> MAX_MOVE < 6"
  by (simp add: get_available_actions_def MAX_CARS_def MAX_MOVE_def upto.simps)

text \<open>
  Claim C3, as stated: the clamped action never brings the destination above \<open>MAX_CARS\<close>.
  This fails at the full state \<open>(20, 20)\<close> with the proposed action \<open>5\<close>: the action is kept
  and location 2 holds \<open>25\<close> cars in the morning.
\<close>

theorem get_valid_action_destination_counterexample:
  "\<not> (\<forall>n1 n2 a. 0 \<le> n1 \<and> n1 \<le> MAX_CARS \<and> 0 \<le> n2 \<and> n2 \<le> MAX_CARS \<longrightarrow>
        n2 + get_valid_action (n1, n2) a \<le> MAX_CARS \<and>
        n1 - get_valid_action (n1, n2) a \<le> MAX_CARS)"
proof
  assume h: "\<forall>n1 n2 a. 0 \<le> n1 \<and> n1 \<le> MAX_CARS \<and> 0 \<le> n2 \<and> n2 \<le> MAX_CARS \<longrightarrow>
        n2 + get_valid_action (n1, n2) a \<le> MAX_CARS \<and>
        n1 - get_valid_action (n1, n2) a \<le> MAX_CARS"
  have "20 + get_valid_action (20, 20) 5 \<le> MAX_CARS"
    using h [rule_format, of 20 20 5] by (simp add: MAX_CARS_def)
  then show False
    by (simp add: get_valid_action_def MAX_CARS_def MAX_MOVE_def)
qed

text \<open>
  Claim C3, amended. For a state with both components in \<open>[0, MAX_CARS]\<close> and any proposed
  action, the clamped action has magnitude at most \<open>MAX_MOVE\<close>, takes no more cars than the
  source location holds, and leaves both morning inventories in
  \<open>[0, MAX_CARS + MAX_MOVE]\<close>: the destination may exceed \<open>MAX_CARS\<close> by up to \<open>MAX_MOVE\<close>.
\<close>

theorem get_valid_action_feasible:
  assumes "0 \<le> n1" "n1 \<le> MAX_CARS" "0 \<le> n2" "n2 \<le> MAX_CARS"
  shows "\<bar>get_valid_action (n1, n2) a\<bar> \<le> MAX_MOVE
       \<and> get_valid_action (n1, n2) a \<le> n1
       \<and> - get_valid_action (n1, n2) a \<le> n2
       \<and> 0 \<le> n2 + get_valid_action (n1, n2) a
       \<and> n2 + get_valid_action (n1, n2) a \<le> MAX_CARS + MAX_MOVE
       \<and> 0 \<le> n1 - get_valid_action (n1, n2) a
       \<and> n1 - get_valid_action (n1, n2) a \<le> MAX_CARS + MAX_MOVE"
  using assms by (auto simp: get_valid_action_def MAX_CARS_def MAX_MOVE_def Let_def)

theorem get_valid_action_feasible_witness:
  "(0::int) \<le> 20 \<and> 20 \<le> MAX_CARS
   \<and> \<bar>get_valid_action (20, 20) 7\<bar> \<le> MAX_MOVE
   \<and> get_valid_action (20, 20) 7 = 5
   \<and> 20 + get_valid_action (20, 20) 7 \<le> MAX_CARS + MAX_MOVE"
  using get_valid_action_feasible [of 20 20 7]
  by (simp add: get_valid_action_def MAX_CARS_def MAX_MOVE_def)

subsection \<open>The evaluation sweep\<close>

text \<open>
  Claim C5. A sweep of \<open>policy_evaluation\<close> is synchronous and order-independent. For a
  well-formed object and a fresh array \<open>new_values\<close>, the sweep returns normally; it leaves
  the object (and with it the table \<open>state_values\<close> that is read) unchanged; the cell of
  every state \<open>st\<close> of the new table holds \<open>bellman_expectation(st, policy[st])\<close> evaluated
  on that unchanged object; and visiting the states in any other order that covers them
  yields the same new table.
\<close>

theorem evaluation_sweep_synchronous:
  assumes "wf_env e" "shape21 new_values" "set order = set all_states"
  shows "\<exists>new_values'.
           evaluation_sweep (e, new_values) = Inr (e, new_values')
         \<and> for_each order evaluation_body (e, new_values) = Inr (e, new_values')
         \<and> (\<forall>st\<in>set all_states. nd_get new_values' (fst st) (snd st) = policy_value e st)"
proof (intro exI conjI ballI)
  let ?t = "nd_tabulate (\<lambda>st. bellman_sum e st (policy e ! nat (fst st) ! nat (snd st)))"
  show "evaluation_sweep (e, new_values) = Inr (e, ?t)"
    by (rule evaluation_sweep_result [OF assms(1,2)])
  show "for_each order evaluation_body (e, new_values) = Inr (e, ?t)"
    by (rule evaluation_order_result [OF assms])
  fix st assume "st \<in> set all_states"
  then have r: "in_range st" by (simp add: set_all_states)
  then have b: "0 \<le> fst st" "fst st \<le> 20" "0 \<le> snd st" "snd st \<le> 20"
    by (simp_all add: in_range_def MAX_CARS_def)
  have "nd_get ?t (fst st) (snd st) = Inr (?t ! nat (fst st) ! nat (snd st))"
    by (rule nd_get_ok [OF shape21_tabulate b])
  also have "?t ! nat (fst st) ! nat (snd st)
      = bellman_sum e st (policy e ! nat (fst st) ! nat (snd st))"
  proof -
    have i: "int (nat (fst st)) = fst st" "int (nat (snd st)) = snd st"
      using b by simp_all
    have "nat (fst st) < 21" "nat (snd st) < 21" using b by simp_all
    then show ?thesis
      by (simp only: nd_tabulate_nth i prod.collapse)
  qed
  finally show "nd_get ?t (fst st) (snd st) = policy_value e st"
    by (simp add: policy_value_ok [OF assms(1) r])
qed

theorem evaluation_sweep_synchronous_witness:
  "\<exists>e new_values'. reset = Inr e \<and> wf_env e
     \<and> shape21 (nd_empty_like (state_values e) :: real ndarray)
     \<and> set (rev all_states) = set all_states
     \<and> evaluation_sweep (e, nd_empty_like (state_values e)) = Inr (e, new_values')
     \<and> for_each (rev all_states) evaluation_body (e, nd_empty_like (state_values e))
         = Inr (e, new_values')
     \<and> nd_get new_values' 3 4 = policy_value e (3, 4)"
proof -
  from reset_wf obtain e where e: "reset = Inr e" "wf_env e" by auto
  have sh: "shape21 (nd_empty_like (state_values e) :: real ndarray)"
    using e(2) by (intro shape21_empty_like) (simp add: wf_env_def)
  have o: "set (rev all_states) = set all_states" by simp
  have m: "(3, 4) \<in> set all_states"
    by (simp add: set_all_states in_range_def MAX_CARS_def)
  from evaluation_sweep_synchronous [OF e(2) sh o] obtain nv where
    "evaluation_sweep (e, nd_empty_like (state_values e)) = Inr (e, nv)"
    "for_each (rev all_states) evaluation_body (e, nd_empty_like (state_values e)) = Inr (e, nv)"
    "\<forall>st\<in>set all_states. nd_get nv (fst st) (snd st) = policy_value e st"
    by blast
  with e sh o m show ?thesis by force
qed

subsection \<open>Termination of policy evaluation\<close>

text \<open>
  Claim C6. The claim is that a sweep cap turns non-convergence into an error, so that
  \<open>policy_evaluation\<close> never loops forever. The loop has no cap. With the threshold
  \<open>theta = 0\<close> on a freshly reset object the test \<open>delta < theta\<close> never holds, no sweep
  raises, and the call neither returns nor raises: it does not terminate.
\<close>

theorem policy_evaluation_never_returns:
  "\<exists>e. reset = Inr e \<and> policy_evaluation 0 e = None"
proof -
  from reset_wf obtain e where e: "reset = Inr e" "wf_env e" by auto
  have "shape21 (nd_empty_like (state_values e) :: real ndarray)"
    using e(2) by (intro shape21_empty_like) (simp add: wf_env_def)
  with e(2) have "policy_evaluation_loop 0 (e, nd_empty_like (state_values e)) = None"
    using policy_evaluation_loop_diverges [of 0 "(e, nd_empty_like (state_values e))"]
    by (cases "policy_evaluation_loop 0 (e, nd_empty_like (state_values e))") auto
  with e(1) show ?thesis by (auto simp: policy_evaluation_def)
qed

subsection \<open>Policy improvement\<close>

text \<open>
  Claim C1. Every entry of the policy table is claimed to have magnitude at most
  \<open>MAX_MOVE\<close> after a call of \<open>policy_improvement\<close>. Take a freshly reset object and set
  row \<open>0\<close> of \<open>state_values\<close> to \<open>-1e6\<close> (\<open>bad_values\<close>). At the state \<open>(0, 6)\<close> the
  available actions are \<open>-6 .. 0\<close>; \<open>-6\<close> and \<open>-5\<close> are both clamped to \<open>-5\<close> and have the
  same value, which no later action exceeds, so the first of them, \<open>-6\<close>, is stored:
  the new policy holds an action of magnitude \<open>6\<close>.
\<close>

theorem policy_improvement_stores_action_beyond_max_move:
  "\<exists>e e' c. reset = Inr e
     \<and> policy_improvement (e\<lparr>state_values := bad_values\<rparr>) = Inr (e', c)
     \<and> nd_get (policy e') 0 6 = Inr (- 6) \<and> MAX_MOVE < \<bar>- 6\<bar>"
proof -
  from reset_wf obtain e where e: "reset = Inr e" "wf_env e" by auto
  define E where "E = e\<lparr>state_values := bad_values\<rparr>"
  have wf: "wf_env E"
    unfolding E_def by (rule wf_env_values [OF e(2) shape21_bad_values])
  have sv: "state_values E = bad_values" by (simp add: E_def)
  define e' where "e' = E\<lparr>policy := nd_tabulate (best_action_of E)\<rparr>"
  have p: "policy_improvement E = Inr (e', nd_all_equal (nd_tabulate (best_action_of E)) (policy E))"
    unfolding e'_def by (rule policy_improvement_result [OF wf])
  have "nd_get (policy e') 0 6 = Inr (nd_tabulate (best_action_of E) ! nat 0 ! nat 6)"
    unfolding e'_def by (simp add: nd_get_ok [OF shape21_tabulate])
  also have "nd_tabulate (best_action_of E) ! nat 0 ! nat 6 = best_action_of E (0, 6)"
    using nd_tabulate_nth [of 0 6 "best_action_of E"] by simp
  also have "\<dots> = - 6" by (rule best_action_bad_values [OF wf sv])
  finally have "nd_get (policy e') 0 6 = Inr (- 6)" .
  moreover have "MAX_MOVE < \<bar>- 6\<bar>" by (simp add: MAX_MOVE_def)
  ultimately show ?thesis using e(1) p unfolding E_def by blast
qed

text \<open>
  Claim C8. \<open>policy_improvement\<close> is idempotent on a stable pair: when a call returns the
  flag \<open>True\<close>, a second call on the resulting object returns \<open>True\<close> again and leaves the
  object, and so the policy array, as it is.
\<close>

theorem policy_improvement_idempotent:
  assumes "policy_improvement e = Inr (e', True)"
  shows "policy_improvement e' = Inr (e', True) \<and> policy e' = policy e"
proof -
  from assms obtain e1 new_policy where
    s: "improvement_sweep (e, nd_empty_like (policy e)) = Inr (e1, new_policy)"
    and e': "e' = e1\<lparr>policy := new_policy\<rparr>" and c: "nd_all_equal new_policy (policy e1)"
    by (auto simp: policy_improvement_def Let_def split: sum.splits prod.splits)
  have "e1 = e" using s unfolding improvement_sweep_states improvement_body_write
    by (rule write_cell_env)
  with e' c have "e' = e" by (simp add: nd_all_equal_iff)
  with assms show ?thesis by simp
qed

theorem policy_improvement_idempotent_witness:
  "\<exists>e0 e1 c. reset = Inr e0 \<and> policy_improvement e0 = Inr (e1, c)
     \<and> policy_improvement e1 = Inr (e1, True)
     \<and> policy e1 = nd_tabulate (best_action_of e0)"
proof -
  from reset_wf obtain e0 where e0: "reset = Inr e0" "wf_env e0" by auto
  define e1 where "e1 = e0\<lparr>policy := nd_tabulate (best_action_of e0)\<rparr>"
  have w1: "wf_env e1"
    unfolding e1_def by (rule wf_env_policy [OF e0(2) shape21_tabulate])
  have p0: "policy_improvement e0
      = Inr (e1, nd_all_equal (nd_tabulate (best_action_of e0)) (policy e0))"
    using policy_improvement_result [OF e0(2)] by (simp add: e1_def)
  have h: "policy_improvement e1 = Inr (e1, True)"
    using policy_improvement_result [OF w1]
    by (simp add: e1_def best_action_of_policy nd_all_equal_iff)
  from policy_improvement_idempotent [OF h] e0(1) p0 show ?thesis
    by (auto simp: e1_def)
qed

text \<open>
  Claim C10. The policy produced by \<open>policy_improvement\<close> does not depend on the incoming
  policy array: two well-formed objects that differ in the policy array only are taken to
  objects with the same new policy array; only the returned flag may differ. The running
  best value starts at minus infinity, so the first available action replaces the initial
  best action read from the old policy.
\<close>

theorem policy_improvement_ignores_policy:
  assumes "wf_env e" "shape21 p"
  shows "\<exists>new_policy c c'.
           policy_improvement e = Inr (e\<lparr>policy := new_policy\<rparr>, c)
         \<and> policy_improvement (e\<lparr>policy := p\<rparr>) = Inr (e\<lparr>policy := new_policy\<rparr>, c')"
  using policy_improvement_result [OF assms(1)]
    policy_improvement_result [OF wf_env_policy [OF assms]]
  by (intro exI [of _ "nd_tabulate (best_action_of e)"]) (simp add: best_action_of_policy)

theorem policy_improvement_ignores_policy_witness:
  "\<exists>e new_policy c c'. reset = Inr e \<and> wf_env e
     \<and> shape21 (replicate 21 (replicate 21 (3::int)))
     \<and> policy_improvement e = Inr (e\<lparr>policy := new_policy\<rparr>, c)
     \<and> policy_improvement (e\<lparr>policy := replicate 21 (replicate 21 3)\<rparr>)
         = Inr (e\<lparr>policy := new_policy\<rparr>, c')"
proof -
  from reset_wf obtain e where e: "reset = Inr e" "wf_env e" by auto
  have sh: "shape21 (replicate 21 (replicate 21 (3::int)))"
    by (simp add: shape21_def)
  from policy_improvement_ignores_policy [OF e(2) sh] e sh show ?thesis
    by blast
qed

subsection \<open>The precomputed models\<close>

text \<open>
  Claim C9. The transition tables built by \<open>precompute_model\<close> are row-stochastic up to
  truncation. After \<open>reset\<close>, for every morning inventory \<open>n\<close> of the precomputed domain
  \<open>0..MAX_CARS + MAX_MOVE\<close> the sum over \<open>n'\<close> of \<open>Prob[(n, n')]\<close> is within \<open>1e-4\<close> of \<open>1\<close>,
  for both locations; and for each of the four rates the Poisson masses over the truncated
  domain sum to within \<open>1e-6\<close> of \<open>1\<close>. (Floats are taken as reals.)
\<close>

theorem transition_rows_stochastic:
  "\<exists>e. reset = Inr e \<and>
     (\<forall>n\<in>{0..MAX_CARS + MAX_MOVE}.
        \<bar>row_sum (probs_1 e) n - 1\<bar> < 1 / 10 ^ 4 \<and> \<bar>row_sum (probs_2 e) n - 1\<bar> < 1 / 10 ^ 4) \<and>
     (\<forall>lam\<in>{REQUEST_1_LAMBDA, DROPOFF_1_LAMBDA, REQUEST_2_LAMBDA, DROPOFF_B_LAMBDA}.
        \<bar>poisson_mass lam - 1\<bar> < 1 / 10 ^ 6)"
proof -
  from reset_wf obtain e where e: "reset = Inr e" "wf_env e" by auto
  have p1: "probs_1 e = model_P 3 3" and p2: "probs_2 e = model_P 4 2"
    using e(2) by (simp_all add: wf_env_def models_built_def consts_defs)
  have r1: "\<And>n. 0 \<le> n \<Longrightarrow> n \<le> 25 \<Longrightarrow> \<bar>row_sum (model_P 3 3) n - 1\<bar> < 1 / 10 ^ 4"
    by (rule row_sum_error) simp_all
  have r2: "\<And>n. 0 \<le> n \<Longrightarrow> n \<le> 25 \<Longrightarrow> \<bar>row_sum (model_P 4 2) n - 1\<bar> < 1 / 10 ^ 4"
    by (rule row_sum_error) simp_all
  have m: "\<bar>poisson_mass 2 - 1\<bar> < 1 / 10 ^ 6" "\<bar>poisson_mass 3 - 1\<bar> < 1 / 10 ^ 6"
    "\<bar>poisson_mass 4 - 1\<bar> < 1 / 10 ^ 6"
    by (rule poisson_mass_error, simp)+
  show ?thesis
  proof (intro exI [of _ e] conjI ballI)
    show "reset = Inr e" by (rule e(1))
  next
    fix n :: int assume "n \<in> {0..MAX_CARS + MAX_MOVE}"
    then have n: "0 \<le> n" "n \<le> 25" by (simp_all add: MAX_CARS_def MAX_MOVE_def)
    show "\<bar>row_sum (probs_1 e) n - 1\<bar> < 1 / 10 ^ 4" unfolding p1 by (rule r1 [OF n])
    show "\<bar>row_sum (probs_2 e) n - 1\<bar> < 1 / 10 ^ 4" unfolding p2 by (rule r2 [OF n])
  next
    fix lam assume "lam \<in> {REQUEST_1_LAMBDA, DROPOFF_1_LAMBDA, REQUEST_2_LAMBDA, DROPOFF_B_LAMBDA}"
    then have "lam = 2 \<or> lam = 3 \<or> lam = 4" by (auto simp: consts_defs)
    then show "\<bar>poisson_mass lam - 1\<bar> < 1 / 10 ^ 6" by (rule poisson_mass_error)
  qed
qed

theorem transition_rows_stochastic_witness:
  "\<exists>e. reset = Inr e \<and> (25::int) \<in> {0..MAX_CARS + MAX_MOVE}
     \<and> \<bar>row_sum (probs_1 e) 25 - 1\<bar> < 1 / 10 ^ 4
     \<and> \<bar>row_sum (probs_2 e) 25 - 1\<bar> < 1 / 10 ^ 4
     \<and> REQUEST_2_LAMBDA \<in> {REQUEST_1_LAMBDA, DROPOFF_1_LAMBDA, REQUEST_2_LAMBDA, DROPOFF_B_LAMBDA}
     \<and> \<bar>poisson_mass REQUEST_2_LAMBDA - 1\<bar> < 1 / 10 ^ 6"
proof -
  have n: "(25::int) \<in> {0..MAX_CARS + MAX_MOVE}"
    by (simp add: MAX_CARS_def MAX_MOVE_def)
  from transition_rows_stochastic obtain e where e: "reset = Inr e"
    "\<forall>n\<in>{0..MAX_CARS + MAX_MOVE}.
        \<bar>row_sum (probs_1 e) n - 1\<bar> < 1 / 10 ^ 4 \<and> \<bar>row_sum (probs_2 e) n - 1\<bar> < 1 / 10 ^ 4"
    "\<forall>lam\<in>{REQUEST_1_LAMBDA, DROPOFF_1_LAMBDA, REQUEST_2_LAMBDA, DROPOFF_B_LAMBDA}.
        \<bar>poisson_mass lam - 1\<bar> < 1 / 10 ^ 6"
    by blast
  from e(2) n have "\<bar>row_sum (probs_1 e) 25 - 1\<bar> < 1 / 10 ^ 4"
    "\<bar>row_sum (probs_2 e) 25 - 1\<bar> < 1 / 10 ^ 4" by blast+
  moreover from e(3) have "\<bar>poisson_mass REQUEST_2_LAMBDA - 1\<bar> < 1 / 10 ^ 6" by blast
  ultimately show ?thesis using e(1) n by blast
qed

subsection \<open>The Bellman backup\<close>

text \<open>
  Claim C4, as stated: \<open>bellman_expectation\<close> adds the immediate reward with coefficient
  exactly \<open>1\<close> (\<open>bellman_spec\<close> is that formula). On a freshly reset object, at the state
  \<open>(1, 0)\<close> with action \<open>0\<close>, the code returns a different value: the reward of the morning
  state \<open>(1, 0)\<close> is positive and the code multiplies it by the truncated total transition
  probability mass, which is below \<open>1\<close>.
\<close>

theorem bellman_expectation_reward_counterexample:
  "\<exists>e. reset = Inr e \<and> in_range (1, 0)
      \<and> bellman_expectation e (1, 0) 0 \<noteq> Inr (bellman_spec e (1, 0) 0)"
proof -
  from reset_wf obtain e where e: "reset = Inr e" "wf_env e"
    "state_values e = nd_zeros (MAX_CARS + 1) (MAX_CARS + 1)" by auto
  have r: "in_range (1, 0)" by (simp add: in_range_def MAX_CARS_def)
  have m: "morning (1, 0) 0 = (1, 0)"
    by (simp add: morning_def get_valid_action_def MAX_MOVE_def)
  define d where "d = (1 - total_mass) * reward_of e (morning (1, 0) 0)"
  have b: "bellman_expectation e (1, 0) 0 = Inr (bellman_spec e (1, 0) 0 - d)"
    unfolding d_def
    by (rule bellman_expectation_weights [OF e(2) r, of 0, THEN conjunct2, THEN conjunct1])
  have "0 < d"
    unfolding d_def m using total_mass_bounds reward_of_1_0 [of e] e(2)
    by (intro mult_pos_pos) (simp_all add: wf_env_def)
  then have "bellman_spec e (1, 0) 0 - d \<noteq> bellman_spec e (1, 0) 0" by simp
  with b have "bellman_expectation e (1, 0) 0 \<noteq> Inr (bellman_spec e (1, 0) 0)" by simp
  with e(1) r show ?thesis by blast
qed

text \<open>
  Claim C4, amended. For a well-formed object, every state in range and every action,
  \<open>bellman_expectation\<close> returns minus the move cost of the clamped action, plus the
  reward of the morning state weighted by the total transition probability mass
  \<open>total_mass\<close> (the product of the four truncated Poisson masses, strictly below \<open>1\<close>),
  plus the sum over the next states of probability times discounted value. The result is
  the formula of the claim minus \<open>(1 - total_mass)\<close> times the reward.
\<close>

theorem bellman_expectation_weights_reward:
  assumes "wf_env e" "in_range st"
  shows "bellman_expectation e st a =
           Inr (- real_of_int (CAR_MOVE_COST * \<bar>get_valid_action st a\<bar>)
                + total_mass * reward_of e (morning st a)
                + (\<Sum>n1\<leftarrow>[0..MAX_CARS]. \<Sum>n2\<leftarrow>[0..MAX_CARS].
                     prob_of e (morning st a) (n1, n2) * (DISCOUNT * value_of e (n1, n2))))
       \<and> bellman_expectation e st a = Inr (bellman_spec e st a - (1 - total_mass) * reward_of e (morning st a))
       \<and> total_mass < 1"
  using assms by (rule bellman_expectation_weights)

theorem bellman_expectation_weights_reward_witness:
  "\<exists>e. reset = Inr e \<and> wf_env e \<and> in_range (20, 20)
     \<and> bellman_expectation e (20, 20) 7 =
         Inr (bellman_spec e (20, 20) 7 - (1 - total_mass) * reward_of e (morning (20, 20) 7))
     \<and> morning (20, 20) 7 = (15, 25)
     \<and> total_mass < 1"
proof -
  from reset_wf obtain e where e: "reset = Inr e" "wf_env e" by auto
  have r: "in_range (20, 20)" by (simp add: in_range_def MAX_CARS_def)
  have m: "morning (20, 20) 7 = (15, 25)"
    by (simp add: morning_def get_valid_action_def MAX_MOVE_def)
  from bellman_expectation_weights_reward [OF e(2) r, of 7] e r m show ?thesis
    by blast
qed

subsection \<open>States outside the range\<close>

text \<open>
  Claim C7, as stated: a state with a component outside \<open>[0, MAX_CARS]\<close> is rejected by
  \<open>step\<close>, \<open>bellman_expectation\<close> and \<open>get_transition_probability\<close>. The state \<open>(21, 0)\<close> is
  outside the range, and on a freshly reset object all three functions return normally
  for it.
\<close>

theorem invalid_state_accepted_counterexample:
  "\<exists>e r p v. reset = Inr e \<and> \<not> in_range (21, 0)
     \<and> step e (21, 0) 0 = Inr ((21, 0), r)
     \<and> get_transition_probability e (21, 0) (0, 0) = Inr p
     \<and> bellman_expectation e (21, 0) 0 = Inr v"
proof -
  from reset_wf obtain e where e: "reset = Inr e" "wf_env e" by auto
  have mb: "models_built e" and sh: "shape21 (state_values e)"
    using e(2) by (simp_all add: wf_env_def)
  have m: "morning (21, 0) 0 = (21, 0)"
    by (simp add: morning_def get_valid_action_def MAX_MOVE_def)
  have d: "in_model_domain (21, 0)" "in_range (0, 0)" "\<not> in_range (21, 0)"
    by (simp_all add: in_model_domain_def in_range_def MAX_CARS_def MAX_MOVE_def)
  have "step e (21, 0) 0 = Inr ((21, 0), reward_of e (21, 0))"
    using d by (simp add: step_cases [OF mb])
  moreover have "get_transition_probability e (21, 0) (0, 0) = Inr (prob_of e (21, 0) (0, 0))"
    using d by (simp add: get_transition_probability_cases [OF mb])
  moreover have "bellman_expectation e (21, 0) 0 = Inr (bellman_sum e (21, 0) 0)"
    using d by (simp add: bellman_expectation_cases [OF mb sh] m)
  ultimately show ?thesis using e(1) d(3) by blast
qed

text \<open>
  Claim C7, amended. There is no range check and no \<open>InvalidStateError\<close>. With the models
  built by \<open>reset\<close>, the only exception of the three functions is the \<open>KeyError\<close> of a
  dictionary lookup: \<open>step\<close> raises it exactly when a morning inventory
  \<open>(n1 - action, n2 + action)\<close> lies outside \<open>[0, MAX_CARS + MAX_MOVE]\<close>;
  \<open>get_transition_probability\<close> raises it exactly when a component of the state lies
  outside \<open>[0, MAX_CARS + MAX_MOVE]\<close> or a component of the new state outside
  \<open>[0, MAX_CARS]\<close>; \<open>bellman_expectation\<close> raises it exactly when a morning inventory after
  clamping the action lies outside \<open>[0, MAX_CARS + MAX_MOVE]\<close>. Otherwise they return their
  value. The three functions only read the object.
\<close>

theorem lookups_raise_key_error:
  assumes "models_built e" "shape21 (state_values e)"
  shows "step e st a =
           (if in_model_domain (fst st - a, snd st + a)
            then Inr ((fst st - a, snd st + a), reward_of e (fst st - a, snd st + a))
            else Inl KeyError)
       \<and> get_transition_probability e st new_state =
           (if in_model_domain st \<and> in_range new_state then Inr (prob_of e st new_state)
            else Inl KeyError)
       \<and> bellman_expectation e st a =
           (if in_model_domain (morning st a) then Inr (bellman_sum e st a) else Inl KeyError)"
  using step_cases [OF assms(1)] get_transition_probability_cases [OF assms(1)]
    bellman_expectation_cases [OF assms]
  by simp

theorem lookups_raise_key_error_witness:
  "\<exists>e. reset = Inr e \<and> models_built e \<and> shape21 (state_values e)
     \<and> step e (26, 0) 0 = Inl KeyError
     \<and> get_transition_probability e (26, 0) (0, 0) = Inl KeyError
     \<and> bellman_expectation e (26, 0) 0 = Inl KeyError"
proof -
  from reset_wf obtain e where e: "reset = Inr e" "wf_env e" by auto
  have mb: "models_built e" and sh: "shape21 (state_values e)"
    using e(2) by (simp_all add: wf_env_def)
  have m: "morning (26, 0) 0 = (26, 0)"
    by (simp add: morning_def get_valid_action_def MAX_MOVE_def)
  have d: "\<not> in_model_domain (26, 0)"
    by (simp add: in_model_domain_def MAX_CARS_def MAX_MOVE_def)
  from lookups_raise_key_error [OF mb sh, of "(26, 0)" 0 "(0, 0)"] d m
  have "step e (26, 0) 0 = Inl KeyError"
    "get_transition_probability e (26, 0) (0, 0) = Inl KeyError"
    "bellman_expectation e (26, 0) 0 = Inl KeyError"
    by simp_all
  with e(1) mb sh show ?thesis by blast
qed

end
